theory Spec2Isabelle
  imports Complex_Main "HOL-Library.AList" "HOL-Library.List_Lexorder"
    "HOL-Library.Product_Lexorder"
begin

section \<open>Embedding of \<^verbatim>\<open>efficient_apriori/itemsets.py\<close>\<close>

text \<open>
  Items are values of a linearly ordered type. An itemset is a Python tuple and is modelled
  as a list; the order on tuples is the lexicographic order on lists and the order on
  \<^verbatim>\<open>(key, count)\<close> pairs is the lexicographic order on pairs, as in Python. A
  \<^verbatim>\<open>dict\<close> keeps its insertion order, so it is an association list. Exceptions are
  values of the type \<open>error\<close>.
\<close>

datatype error = TypeError | ValueError | KeyError | ZeroDivisionError | InvalidOperation

subsection \<open>\<^verbatim>\<open>join_step\<close>\<close>

text \<open>
  \<^verbatim>\<open>*itemset_first, itemset_last = itemsets[i]\<close>: the starred unpacking raises
  \<^verbatim>\<open>ValueError\<close> on the empty tuple; \<open>None\<close> stands for this failure.
\<close>

fun unpack :: "'a list \<Rightarrow> ('a list \<times> 'a) option" where
  "unpack [] = None"
| "unpack (x # xs) = Some (butlast (x # xs), last (x # xs))"

text \<open>
  The inner \<^verbatim>\<open>for j in range(i + 1, len(itemsets))\<close> loop, run on the itemsets that
  follow position \<open>i\<close>: it returns the tail items appended after \<^verbatim>\<open>itemset_last\<close>,
  stopping (\<^verbatim>\<open>break\<close>) at the first itemset whose first items differ.
\<close>

fun collect_tails :: "'a list \<Rightarrow> 'a list list \<Rightarrow> error + 'a list" where
  "collect_tails itemset_first [] = Inr []"
| "collect_tails itemset_first (y # ys) =
     (case unpack y of
        None \<Rightarrow> Inl ValueError
      | Some (itemset_n_first, itemset_n_last) \<Rightarrow>
          if itemset_first = itemset_n_first
          then (case collect_tails itemset_first ys of
                  Inl e \<Rightarrow> Inl e
                | Inr tails \<Rightarrow> Inr (itemset_n_last # tails))
          else Inr [])"

text \<open>\<^verbatim>\<open>itertools.combinations(tail_items, 2)\<close>, in the order Python emits the pairs.\<close>

fun combinations2 :: "'a list \<Rightarrow> ('a \<times> 'a) list" where
  "combinations2 [] = []"
| "combinations2 (x # xs) = map (Pair x) xs @ combinations2 xs"

text \<open>
  The outer \<^verbatim>\<open>while i < len(itemsets)\<close> loop. The argument is the part of the list from
  position \<open>i\<close> on; \<^verbatim>\<open>i += skip\<close> with \<open>skip = 1 + length tails\<close> drops the block just
  processed. The generator is always consumed whole by its callers, so the result is the list of
  everything it yields, or the exception it raises.
\<close>

function join_step :: "'a::linorder list list \<Rightarrow> error + 'a list list" where
  "join_step [] = Inr []"
| "join_step (x # xs) =
     (case unpack x of
        None \<Rightarrow> Inl ValueError
      | Some (itemset_first, itemset_last) \<Rightarrow>
          (case collect_tails itemset_first xs of
             Inl e \<Rightarrow> Inl e
           | Inr tails \<Rightarrow>
               (case join_step (drop (length tails) xs) of
                  Inl e \<Rightarrow> Inl e
                | Inr later \<Rightarrow>
                    Inr (map (\<lambda>(a, b). itemset_first @ [a] @ [b])
                           (sort (combinations2 (itemset_last # tails))) @ later))))"
  by pat_completeness auto
termination
  by (relation "measure length") auto

subsection \<open>\<^verbatim>\<open>prune_step\<close>\<close>

text \<open>\<^verbatim>\<open>possible_itemset[:i] + possible_itemset[i + 1:]\<close>\<close>

definition removed :: "'a list \<Rightarrow> nat \<Rightarrow> 'a list" where
  "removed possible_itemset i = take i possible_itemset @ drop (i + 1) possible_itemset"

text \<open>
  The \<^verbatim>\<open>for\<close>/\<^verbatim>\<open>else\<close> yields the candidate when no \<open>i\<close> in
  \<^verbatim>\<open>range(len(possible_itemset) - 2)\<close> breaks; the range is empty when the length is
  below 2, as the truncating subtraction on \<open>nat\<close> gives.
\<close>

definition prune_step :: "'a list list \<Rightarrow> 'a list list \<Rightarrow> 'a list list" where
  "prune_step itemsets possible_itemsets =
     filter (\<lambda>possible_itemset.
               \<forall>i \<in> set [0..<length possible_itemset - 2].
                 removed possible_itemset i \<in> set itemsets)
       possible_itemsets"

definition apriori_gen :: "'a::linorder list list \<Rightarrow> error + 'a list list" where
  "apriori_gen itemsets =
     (case join_step itemsets of
        Inl e \<Rightarrow> Inl e
      | Inr possible_extensions \<Rightarrow> Inr (prune_step itemsets possible_extensions))"

subsection \<open>Dictionaries\<close>

text \<open>\<^verbatim>\<open>counts[key] += 1\<close> on a \<^verbatim>\<open>defaultdict(int)\<close>: a new key is appended with count 1.\<close>

fun increment :: "('k \<times> nat) list \<Rightarrow> 'k \<Rightarrow> ('k \<times> nat) list" where
  "increment [] key = [(key, 1)]"
| "increment ((k, c) # kvs) key =
     (if k = key then (k, c + 1) # kvs else (k, c) # increment kvs key)"

text \<open>A dict comprehension \<^verbatim>\<open>{k: v for (k, v) in pairs}\<close>: a repeated key keeps its place
  and takes the later value.\<close>

definition dict_of :: "('k \<times> 'v) list \<Rightarrow> ('k \<times> 'v) list" where
  "dict_of pairs = foldl (\<lambda>d (k, v). AList.update k v d) [] pairs"

subsection \<open>True division\<close>

text \<open>\<^verbatim>\<open>int.bit_length\<close>\<close>

fun bit_length :: "nat \<Rightarrow> nat" where
  "bit_length n = (if n = 0 then 0 else Suc (bit_length (n div 2)))"

declare bit_length.simps [simp del]

definition pow2 :: "int \<Rightarrow> rat" where
  "pow2 e = (if 0 \<le> e then 2 ^ nat e else 1 / 2 ^ nat (- e))"

text \<open>Rounding to the nearest integer, a tie going to the even one.\<close>

definition round_half_even :: "rat \<Rightarrow> int" where
  "round_half_even x =
     (let f = \<lfloor>x\<rfloor>; r = x - of_int f
      in if r < 1 / 2 then f else if 1 / 2 < r then f + 1 else if even f then f else f + 1)"

text \<open>
  \<^verbatim>\<open>a / b\<close> on two \<^verbatim>\<open>int\<close>s, \<open>b\<close> not zero: the \<^verbatim>\<open>float\<close> nearest to the
  quotient, that is the quotient rounded to 53 significant bits, ties to even; the result is
  given by its exact value. With \<open>2 ^ p \<le> a / b < 2 ^ (p + 1)\<close> the spacing of the doubles around
  the quotient is \<open>2 ^ (p - 52)\<close>. The operands are counts of records held in memory, so the
  quotient stays within the exponent range of a double, where this is what CPython computes.
\<close>

definition true_divide :: "nat \<Rightarrow> nat \<Rightarrow> rat" where
  "true_divide a b =
     (if a = 0 then 0
      else
        (let q = of_nat a / of_nat b;
             d = int (bit_length a) - int (bit_length b);
             p = (if pow2 d \<le> q then d else d - 1);
             ulp = pow2 (p - 52)
         in of_int (round_half_even (q / ulp)) * ulp))"

text \<open>
  \<^verbatim>\<open>[(i, c) for (i, c) in counts.items() if (c / num_transactions) >= min_support]\<close>: the
  division raises when there is an entry to test and \<^verbatim>\<open>num_transactions\<close> is zero. The
  quotient is a \<^verbatim>\<open>float\<close>; \<^verbatim>\<open>min_support\<close> is given by its exact value, and Python
  compares the values of a \<^verbatim>\<open>float\<close> and of another real number exactly.
\<close>

definition keep_large :: "('k \<times> nat) list \<Rightarrow> nat \<Rightarrow> rat \<Rightarrow> error + ('k \<times> nat) list" where
  "keep_large counts num_transactions min_support =
     (if counts \<noteq> [] \<and> num_transactions = 0 then Inl ZeroDivisionError
      else Inr (filter (\<lambda>(i, c). true_divide c num_transactions \<ge> min_support) counts))"

subsection \<open>\<^verbatim>\<open>itemsets_from_transactions\<close>\<close>

text \<open>
  The argument \<^verbatim>\<open>transactions\<close>: an iterable collection of item sequences, a callable (with
  what its invocation returns: a generator over item sequences, another iterable, or something
  that is not iterable), or neither. A generator is taken to be finite and a callable to return
  the same transactions at each invocation.
\<close>

datatype 'a returned = Generator "'a list list" | Iterable "'a list list" | NotIterable

datatype 'a transactions_arg = Collection "'a list list" | Callable "'a returned" | Neither

text \<open>
  The argument \<^verbatim>\<open>min_support\<close>: a real number (\<^verbatim>\<open>int\<close>, \<^verbatim>\<open>bool\<close>, finite
  \<^verbatim>\<open>float\<close>, \<^verbatim>\<open>Fraction\<close>, finite \<^verbatim>\<open>Decimal\<close>) given by its exact value; a
  \<^verbatim>\<open>float\<close> or \<^verbatim>\<open>Decimal\<close> that is infinite, or a \<^verbatim>\<open>float\<close> that is not a number,
  for which \<^verbatim>\<open>0 <= min_support <= 1\<close> is false; an instance of \<^verbatim>\<open>numbers.Number\<close>
  for which the comparison \<^verbatim>\<open>0 <= min_support\<close> raises, with the exception raised
  (\<^verbatim>\<open>TypeError\<close> for a \<^verbatim>\<open>complex\<close>, \<^verbatim>\<open>InvalidOperation\<close> for a \<^verbatim>\<open>Decimal\<close> that
  is not a number); or a value that is no instance of \<^verbatim>\<open>numbers.Number\<close>.
\<close>

datatype support_arg = Number rat | NonFinite | Incomparable error | NotNumber

text \<open>
  \<^verbatim>\<open>if not (isinstance(min_support, numbers.Number) and (0 <= min_support <= 1)): raise
  ValueError(msg)\<close>
\<close>

definition check_support :: "support_arg \<Rightarrow> error + rat" where
  "check_support min_support =
     (case min_support of
        NotNumber \<Rightarrow> Inl ValueError
      | Incomparable e \<Rightarrow> Inl e
      | NonFinite \<Rightarrow> Inl ValueError
      | Number m \<Rightarrow> if 0 \<le> m \<and> m \<le> 1 then Inr m else Inl ValueError)"

text \<open>
  STEP 0, the branches on \<^verbatim>\<open>transactions\<close> (lines 189 to 206). The result is the number
  of records of the caller's input that have been read, and either the exception raised or
  the transactions that each later call of \<^verbatim>\<open>transactions()\<close> yields.
  \<^verbatim>\<open>set(t)\<close> is the list of the distinct items of \<open>t\<close>, in the order of their first
  occurrence; the order in which a set is iterated does not show in the result (lemma
  \<open>collection_as_sets\<close> below). The generator obtained from a callable here is only
  type-checked, never advanced.
\<close>

definition normalize_transactions :: "'a transactions_arg \<Rightarrow> nat \<times> (error + 'a list list)" where
  "normalize_transactions transactions =
     (case transactions of
        Collection ts \<Rightarrow>
          (let transaction_sets = map remdups (filter (\<lambda>t. length t > 0) ts)
           in (length ts, Inr transaction_sets))
      | Callable ret_value \<Rightarrow>
          (case ret_value of
             Generator g \<Rightarrow> (0, Inr g)
           | Iterable _ \<Rightarrow> (0, Inl TypeError)
           | NotIterable \<Rightarrow> (0, Inl TypeError))
      | Neither \<Rightarrow> (0, Inl TypeError))"

text \<open>STEP 0 as a whole: the branches on \<^verbatim>\<open>transactions\<close>, then the check of
  \<^verbatim>\<open>min_support\<close>.\<close>

definition sanitize ::
  "'a transactions_arg \<Rightarrow> support_arg \<Rightarrow> nat \<times> (error + ('a list list \<times> rat))" where
  "sanitize transactions min_support =
     (case normalize_transactions transactions of
        (records, Inl e) \<Rightarrow> (records, Inl e)
      | (records, Inr ts) \<Rightarrow>
          (records,
           case check_support min_support of
             Inl e \<Rightarrow> Inl e
           | Inr m \<Rightarrow> Inr (ts, m)))"

text \<open>STEP 1: \<^verbatim>\<open>for item in transaction: counts[item] += 1\<close> over all transactions.\<close>

fun count_items :: "'a list list \<Rightarrow> ('a \<times> nat) list \<Rightarrow> nat \<Rightarrow> ('a \<times> nat) list \<times> nat" where
  "count_items [] counts num_transactions = (counts, num_transactions)"
| "count_items (transaction # rest) counts num_transactions =
     count_items rest (foldl increment counts transaction) (num_transactions + 1)"

text \<open>STEP 2, the loop over the candidates for one row.\<close>

fun scan_candidates ::
  "'a list list \<Rightarrow> 'a list \<Rightarrow> ('a list \<times> nat) list \<Rightarrow> bool \<Rightarrow> ('a list \<times> nat) list \<times> bool" where
  "scan_candidates [] transaction counts found_any = (counts, found_any)"
| "scan_candidates (candidate # cs) transaction counts found_any =
     (if set candidate \<subseteq> set transaction
      then scan_candidates cs transaction (increment counts candidate) True
      else scan_candidates cs transaction counts found_any)"

text \<open>
  The loop over \<^verbatim>\<open>enumerate(transactions())\<close>. \<^verbatim>\<open>use_transaction\<close> is a
  \<^verbatim>\<open>defaultdict(lambda: True)\<close>: a function from row numbers to \<open>bool\<close>.
\<close>

fun scan_rows ::
  "'a list list \<Rightarrow> (nat \<times> 'a list) list \<Rightarrow> ('a list \<times> nat) list \<Rightarrow> (nat \<Rightarrow> bool) \<Rightarrow>
     ('a list \<times> nat) list \<times> (nat \<Rightarrow> bool)" where
  "scan_rows C_k [] counts use_transaction = (counts, use_transaction)"
| "scan_rows C_k ((row, transaction) # rest) counts use_transaction =
     (if \<not> use_transaction row then scan_rows C_k rest counts use_transaction
      else (case scan_candidates C_k transaction counts False of
              (counts', found_any) \<Rightarrow>
                scan_rows C_k rest counts'
                  (if \<not> found_any then use_transaction(row := False) else use_transaction)))"

definition enumerate_rows :: "'a list \<Rightarrow> (nat \<times> 'a) list" where
  "enumerate_rows xs = zip [0..<length xs] xs"

type_synonym 'a level = "('a list \<times> nat) list"

type_synonym 'a levels = "(nat \<times> 'a level) list"

text \<open>
  The \<^verbatim>\<open>while large_itemsets[k - 1]\<close> loop; \<open>None\<close> is a loop that does not return.
\<close>

partial_function (option) level_loop ::
  "'a::linorder list list \<Rightarrow> rat \<Rightarrow> nat \<Rightarrow> 'a levels \<Rightarrow> nat \<Rightarrow> (nat \<Rightarrow> bool) \<Rightarrow>
     (error + 'a levels) option" where
  "level_loop transactions min_support num_transactions large_itemsets k use_transaction =
     (case map_of large_itemsets (k - 1) of
        None \<Rightarrow> Some (Inl KeyError)
      | Some previous \<Rightarrow>
          if previous = [] then Some (Inr large_itemsets)
          else
            (case join_step (map fst previous) of
               Inl e \<Rightarrow> Some (Inl e)
             | Inr possible \<Rightarrow>
                 (case scan_rows (prune_step (map fst previous) possible)
                         (enumerate_rows transactions) [] use_transaction of
                    (candidate_itemset_counts, use_transaction') \<Rightarrow>
                      (case keep_large candidate_itemset_counts num_transactions min_support of
                         Inl e \<Rightarrow> Some (Inl e)
                       | Inr C_k \<Rightarrow>
                           if C_k = [] then Some (Inr large_itemsets)
                           else level_loop transactions min_support num_transactions
                                  (AList.update k (dict_of (sort C_k)) large_itemsets)
                                  (k + 1) use_transaction'))))"

definition itemsets_from_transactions ::
  "'a::linorder transactions_arg \<Rightarrow> support_arg \<Rightarrow> (error + ('a levels \<times> nat)) option" where
  "itemsets_from_transactions transactions min_support =
     (case snd (sanitize transactions min_support) of
        Inl e \<Rightarrow> Some (Inl e)
      | Inr (ts, m) \<Rightarrow>
          (case count_items ts [] 0 of
             (counts, num_transactions) \<Rightarrow>
               (case keep_large counts num_transactions m of
                  Inl e \<Rightarrow> Some (Inl e)
                | Inr large \<Rightarrow>
                    if large = [] then Some (Inr ([], num_transactions))
                    else
                      (case level_loop ts m num_transactions
                              [(1, dict_of (map (\<lambda>(i, c). ([i], c)) (sort large)))]
                              2 (\<lambda>row. True) of
                         None \<Rightarrow> None
                       | Some (Inl e) \<Rightarrow> Some (Inl e)
                       | Some (Inr large_itemsets) \<Rightarrow>
                           Some (Inr (large_itemsets, num_transactions))))))"

subsection \<open>The same driver without the row-usage mask\<close>

text \<open>
  The reference the row skipping is compared with: the loops above with
  \<^verbatim>\<open>use_transaction\<close> taken out, so that every row is counted at every level.
\<close>

fun scan_rows_every_row ::
  "'a list list \<Rightarrow> 'a list list \<Rightarrow> ('a list \<times> nat) list \<Rightarrow> ('a list \<times> nat) list" where
  "scan_rows_every_row C_k [] counts = counts"
| "scan_rows_every_row C_k (transaction # rest) counts =
     scan_rows_every_row C_k rest (fst (scan_candidates C_k transaction counts False))"

partial_function (option) level_loop_every_row ::
  "'a::linorder list list \<Rightarrow> rat \<Rightarrow> nat \<Rightarrow> 'a levels \<Rightarrow> nat \<Rightarrow> (error + 'a levels) option" where
  "level_loop_every_row transactions min_support num_transactions large_itemsets k =
     (case map_of large_itemsets (k - 1) of
        None \<Rightarrow> Some (Inl KeyError)
      | Some previous \<Rightarrow>
          if previous = [] then Some (Inr large_itemsets)
          else
            (case join_step (map fst previous) of
               Inl e \<Rightarrow> Some (Inl e)
             | Inr possible \<Rightarrow>
                 (case keep_large
                         (scan_rows_every_row (prune_step (map fst previous) possible)
                            transactions [])
                         num_transactions min_support of
                    Inl e \<Rightarrow> Some (Inl e)
                  | Inr C_k \<Rightarrow>
                      if C_k = [] then Some (Inr large_itemsets)
                      else level_loop_every_row transactions min_support num_transactions
                             (AList.update k (dict_of (sort C_k)) large_itemsets) (k + 1))))"

definition itemsets_from_transactions_every_row ::
  "'a::linorder transactions_arg \<Rightarrow> support_arg \<Rightarrow> (error + ('a levels \<times> nat)) option" where
  "itemsets_from_transactions_every_row transactions min_support =
     (case snd (sanitize transactions min_support) of
        Inl e \<Rightarrow> Some (Inl e)
      | Inr (ts, m) \<Rightarrow>
          (case count_items ts [] 0 of
             (counts, num_transactions) \<Rightarrow>
               (case keep_large counts num_transactions m of
                  Inl e \<Rightarrow> Some (Inl e)
                | Inr large \<Rightarrow>
                    if large = [] then Some (Inr ([], num_transactions))
                    else
                      (case level_loop_every_row ts m num_transactions
                              [(1, dict_of (map (\<lambda>(i, c). ([i], c)) (sort large)))] 2 of
                         None \<Rightarrow> None
                       | Some (Inl e) \<Rightarrow> Some (Inl e)
                       | Some (Inr large_itemsets) \<Rightarrow>
                           Some (Inr (large_itemsets, num_transactions))))))"

subsection \<open>Notions used in the statements\<close>

text \<open>The support count of an itemset: the number of transactions that contain all its items.\<close>

definition support :: "'a list \<Rightarrow> 'a list list \<Rightarrow> nat" where
  "support S transactions = length (filter (\<lambda>t. set S \<subseteq> set t) transactions)"

text \<open>The value a \<^verbatim>\<open>defaultdict(int)\<close> holds for a key.\<close>

definition count_of :: "('k \<times> nat) list \<Rightarrow> 'k \<Rightarrow> nat" where
  "count_of counts key = (case map_of counts key of None \<Rightarrow> 0 | Some c \<Rightarrow> c)"

text \<open>The candidates of a level that a transaction contains.\<close>

definition matches :: "'a list list \<Rightarrow> 'a list \<Rightarrow> bool" where
  "matches C_k transaction = (\<exists>candidate \<in> set C_k. set candidate \<subseteq> set transaction)"

text \<open>The inputs that pass STEP 0.\<close>

definition accepted_transactions :: "'a transactions_arg \<Rightarrow> bool" where
  "accepted_transactions transactions =
     (case transactions of
        Collection ts \<Rightarrow> True
      | Callable ret_value \<Rightarrow> (case ret_value of Generator g \<Rightarrow> True | _ \<Rightarrow> False)
      | Neither \<Rightarrow> False)"

definition valid_support :: "support_arg \<Rightarrow> bool" where
  "valid_support min_support =
     (case min_support of Number m \<Rightarrow> 0 \<le> m \<and> m \<le> 1 | _ \<Rightarrow> False)"

text \<open>
  The shapes the specification calls valid: an iterable, or a callable returning an iterable.
\<close>

definition well_shaped :: "'a transactions_arg \<Rightarrow> bool" where
  "well_shaped transactions =
     (case transactions of
        Collection ts \<Rightarrow> True
      | Callable ret_value \<Rightarrow> (case ret_value of NotIterable \<Rightarrow> False | _ \<Rightarrow> True)
      | Neither \<Rightarrow> False)"

text \<open>The number of records of the caller's input read by the time STEP 0 is over.\<close>

definition records_read :: "'a transactions_arg \<Rightarrow> support_arg \<Rightarrow> nat" where
  "records_read transactions min_support = fst (sanitize transactions min_support)"

text \<open>The transactions an accepted argument holds.\<close>

definition source_transactions :: "'a transactions_arg \<Rightarrow> 'a list list" where
  "source_transactions transactions =
     (case transactions of
        Collection ts \<Rightarrow> ts
      | Callable ret_value \<Rightarrow> (case ret_value of Generator g \<Rightarrow> g | _ \<Rightarrow> [])
      | Neither \<Rightarrow> [])"

text \<open>Every stored count, divided by the number of transactions as Python divides, reaches
  the threshold.\<close>

definition above_threshold :: "rat \<Rightarrow> nat \<Rightarrow> 'a levels \<Rightarrow> bool" where
  "above_threshold min_support num_transactions large_itemsets =
     (\<forall>(k, lev) \<in> set large_itemsets.
        \<forall>(S, c) \<in> set lev. min_support \<le> true_divide c num_transactions)"

text \<open>A dictionary of counts as the loops build it: no key twice, every count positive.\<close>

definition dict_ok :: "('k \<times> nat) list \<Rightarrow> bool" where
  "dict_ok counts = (distinct (map fst counts) \<and> (\<forall>(key, c) \<in> set counts. 0 < c))"

text \<open>
  What the loop keeps of a stored level \<open>j\<close>: it is not empty, its keys are in strictly
  ascending order, and each key is a tuple of \<open>j\<close> different items that some transaction
  contains, stored with at least its support count, and with exactly it from level 2 on.
\<close>

definition level_ok :: "'a::linorder list list \<Rightarrow> nat \<Rightarrow> 'a level \<Rightarrow> bool" where
  "level_ok transactions j lev =
     (lev \<noteq> [] \<and> sorted_wrt (<) (map fst lev) \<and>
      (\<forall>(S, c) \<in> set lev.
         length S = j \<and> distinct S \<and> 0 < support S transactions \<and>
         support S transactions \<le> c \<and> (2 \<le> j \<longrightarrow> c = support S transactions)))"

text \<open>Downward closure of an itemset collection, counts included.\<close>

definition downward_closed :: "'a levels \<Rightarrow> bool" where
  "downward_closed large_itemsets =
     (\<forall>j lev S c i.
        map_of large_itemsets j = Some lev \<and> 1 < j \<and> (S, c) \<in> set lev \<and> i < j \<longrightarrow>
        (\<exists>prev c'. map_of large_itemsets (j - 1) = Some prev \<and>
                   (removed S i, c') \<in> set prev \<and> c \<le> c'))"

definition levels_ok :: "'a::linorder list list \<Rightarrow> 'a levels \<Rightarrow> nat \<Rightarrow> bool" where
  "levels_ok transactions large_itemsets k =
     (map fst large_itemsets = [1..<k] \<and>
      (\<forall>(j, lev) \<in> set large_itemsets. level_ok transactions j lev) \<and>
      downward_closed large_itemsets)"

text \<open>A row marked inactive contains none of the given itemsets.\<close>

definition mask_ok :: "'a list list \<Rightarrow> 'a list list \<Rightarrow> (nat \<Rightarrow> bool) \<Rightarrow> bool" where
  "mask_ok transactions itemsets use_transaction =
     (\<forall>row < length transactions.
        \<not> use_transaction row \<longrightarrow> \<not> matches itemsets (transactions ! row))"

declare level_loop.simps [code]

section \<open>STEP 0 by cases\<close>

lemma sanitize_cases:
  "sanitize transactions min_support =
     (case transactions of
        Collection ts \<Rightarrow>
          (length ts,
           case check_support min_support of
             Inl e \<Rightarrow> Inl e
           | Inr m \<Rightarrow> Inr (map remdups (filter (\<lambda>t. t \<noteq> []) ts), m))
      | Callable ret_value \<Rightarrow>
          (case ret_value of
             Generator g \<Rightarrow>
               (0, case check_support min_support of
                     Inl e \<Rightarrow> Inl e
                   | Inr m \<Rightarrow> Inr (g, m))
           | Iterable _ \<Rightarrow> (0, Inl TypeError)
           | NotIterable \<Rightarrow> (0, Inl TypeError))
      | Neither \<Rightarrow> (0, Inl TypeError))"
  by (simp add: sanitize_def normalize_transactions_def
      split: transactions_arg.splits returned.splits cong: sum.case_cong)

section \<open>The join step\<close>

lemma unpack_Some: "unpack y = Some (f, l) \<longleftrightarrow> y = f @ [l]"
proof (cases y)
  case Nil
  then show ?thesis by simp
next
  case (Cons a ys)
  then have "unpack y = Some (butlast y, last y)" and "y \<noteq> []" by simp_all
  then show ?thesis
    by (metis append_butlast_last_id butlast_snoc last_snoc option.inject prod.inject)
qed

lemma unpack_None: "unpack y = None \<longleftrightarrow> y = []"
  by (cases y) auto

lemma collect_tails_take:
  "collect_tails f ys = Inr tails \<Longrightarrow> take (length tails) ys = map (\<lambda>t. f @ [t]) tails"
proof (induction ys arbitrary: tails)
  case Nil
  then show ?case by simp
next
  case (Cons y ys)
  then show ?case
    by (auto simp: unpack_Some split: option.splits if_splits sum.splits)
qed

lemma collect_tails_length: "collect_tails f ys = Inr tails \<Longrightarrow> length tails \<le> length ys"
  by (induction ys arbitrary: tails) (auto split: option.splits if_splits sum.splits)

lemma collect_tails_total:
  "\<forall>y\<in>set ys. y \<noteq> [] \<Longrightarrow> \<exists>tails. collect_tails f ys = Inr tails"
  by (induction ys) (auto simp: unpack_None split: option.splits sum.splits)

lemma join_step_total: "\<forall>y\<in>set L. y \<noteq> [] \<Longrightarrow> \<exists>cs. join_step L = Inr cs"
proof (induction L rule: join_step.induct)
  case 1
  then show ?case by simp
next
  case (2 x xs)
  from 2(2) obtain f l where u: "unpack x = Some (f, l)"
    by (cases "unpack x") (auto simp: unpack_None)
  from 2(2) obtain tails where t: "collect_tails f xs = Inr tails"
    using collect_tails_total[of xs f] by auto
  have "\<forall>y\<in>set (drop (length tails) xs). y \<noteq> []"
    using 2(2) by (auto dest: in_set_dropD)
  with 2(1)[OF u _ t] obtain later where "join_step (drop (length tails) xs) = Inr later"
    by auto
  with u t show ?case by simp
qed

lemma combinations2_sorted_wrt:
  "sorted_wrt P xs \<Longrightarrow> (a, b) \<in> set (combinations2 xs) \<Longrightarrow> P a b"
  by (induction xs) auto

lemma combinations2_set:
  "(a, b) \<in> set (combinations2 xs) \<Longrightarrow> a \<in> set xs \<and> b \<in> set xs"
  by (induction xs) auto

lemma distinct_combinations2: "distinct xs \<Longrightarrow> distinct (combinations2 xs)"
  by (induction xs) (auto simp: distinct_map inj_on_def dest: combinations2_set)

lemma join_step_Cons:
  assumes "join_step (x # xs) = Inr cs"
  obtains f l tails later where "x = f @ [l]" "collect_tails f xs = Inr tails"
    "join_step (drop (length tails) xs) = Inr later"
    "cs = map (\<lambda>(a, b). f @ [a] @ [b]) (sort (combinations2 (l # tails))) @ later"
  using assms by (auto simp: unpack_Some split: option.splits sum.splits)

lemma join_step_mem:
  "join_step L = Inr cs \<Longrightarrow> c \<in> set cs \<Longrightarrow>
     \<exists>p a b. c = p @ [a, b] \<and> p @ [a] \<in> set L \<and> p @ [b] \<in> set L"
proof (induction L arbitrary: cs rule: join_step.induct)
  case 1
  then show ?case by simp
next
  case (2 x xs)
  from 2(2) obtain f l tails later where x: "x = f @ [l]" and t: "collect_tails f xs = Inr tails"
    and j: "join_step (drop (length tails) xs) = Inr later"
    and cs: "cs = map (\<lambda>(a, b). f @ [a] @ [b]) (sort (combinations2 (l # tails))) @ later"
    by (rule join_step_Cons)
  have u: "unpack x = Some (f, l)" using x by (simp add: unpack_Some)
  have blk: "set (map (\<lambda>t. f @ [t]) (l # tails)) \<subseteq> set (x # xs)"
    using collect_tails_take[OF t] x
    by (metis (no_types, lifting) list.simps(9) set_subset_Cons set_take_subset subset_trans
        insert_subset list.simps(15) list.set_intros(1))
  show ?case
  proof (cases "c \<in> set later")
    case True
    from 2(1)[OF u _ t j True] obtain p a b where
      "c = p @ [a, b]" "p @ [a] \<in> set (drop (length tails) xs)" "p @ [b] \<in> set (drop (length tails) xs)"
      by auto
    then show ?thesis by (auto dest: in_set_dropD)
  next
    case False
    with 2(3) cs obtain a b where ab: "(a, b) \<in> set (combinations2 (l # tails))" "c = f @ [a, b]"
      by auto
    from combinations2_set[OF ab(1)] have "a \<in> set (l # tails)" "b \<in> set (l # tails)" by auto
    with blk have "f @ [a] \<in> set (x # xs)" "f @ [b] \<in> set (x # xs)" by auto
    with ab show ?thesis by blast
  qed
qed

lemma append_less_append: "(f @ xs < f @ ys) \<longleftrightarrow> (xs < (ys :: 'a::linorder list))"
  by (induction f) auto

lemma snoc_less_snoc: "(f @ [a] < f @ [b]) \<longleftrightarrow> (a < (b :: 'a::linorder))"
  by (simp add: append_less_append)

lemma collect_tails_block:
  assumes "collect_tails f xs = Inr tails"
  shows "map (\<lambda>t. f @ [t]) (l # tails) = take (Suc (length tails)) ((f @ [l]) # xs)"
  using collect_tails_take[OF assms] by simp

lemma join_step_mem_less:
  "join_step L = Inr cs \<Longrightarrow> c \<in> set cs \<Longrightarrow> sorted_wrt (<) L \<Longrightarrow>
     \<exists>p a b. c = p @ [a, b] \<and> a < b \<and> p @ [a] \<in> set L \<and> p @ [b] \<in> set L"
proof (induction L arbitrary: cs rule: join_step.induct)
  case 1
  then show ?case by simp
next
  case (2 x xs)
  from 2(2) obtain f l tails later where x: "x = f @ [l]" and t: "collect_tails f xs = Inr tails"
    and j: "join_step (drop (length tails) xs) = Inr later"
    and cs: "cs = map (\<lambda>(a, b). f @ [a] @ [b]) (sort (combinations2 (l # tails))) @ later"
    by (rule join_step_Cons)
  have u: "unpack x = Some (f, l)" using x by (simp add: unpack_Some)
  have blk: "map (\<lambda>t. f @ [t]) (l # tails) = take (Suc (length tails)) (x # xs)"
    using collect_tails_block[OF t] x by simp
  have srt: "sorted_wrt (<) (drop (length tails) xs)"
    using 2(4) by (simp add: sorted_wrt_drop)
  show ?case
  proof (cases "c \<in> set later")
    case True
    from 2(1)[OF u _ t j True srt] obtain p a b where
      "c = p @ [a, b]" "a < b" "p @ [a] \<in> set (drop (length tails) xs)"
      "p @ [b] \<in> set (drop (length tails) xs)"
      by auto
    then show ?thesis by (auto dest: in_set_dropD)
  next
    case False
    with 2(3) cs obtain a b where ab: "(a, b) \<in> set (combinations2 (l # tails))" "c = f @ [a, b]"
      by auto
    have "sorted_wrt (<) (map (\<lambda>t. f @ [t]) (l # tails))"
      unfolding blk using 2(4) by (rule sorted_wrt_take)
    then have "sorted_wrt (<) (l # tails)"
      by (simp only: sorted_wrt_map snoc_less_snoc)
    from combinations2_sorted_wrt[OF this ab(1)] have "a < b" .
    from combinations2_set[OF ab(1)] have "a \<in> set (l # tails)" "b \<in> set (l # tails)" by auto
    then have "f @ [a] \<in> set (map (\<lambda>t. f @ [t]) (l # tails))"
      "f @ [b] \<in> set (map (\<lambda>t. f @ [t]) (l # tails))" by auto
    then have "f @ [a] \<in> set (x # xs)" "f @ [b] \<in> set (x # xs)"
      unfolding blk by (auto dest: in_set_takeD)
    with ab \<open>a < b\<close> show ?thesis by blast
  qed
qed

lemma join_step_distinct:
  "join_step L = Inr cs \<Longrightarrow> distinct L \<Longrightarrow> distinct cs"
proof (induction L arbitrary: cs rule: join_step.induct)
  case 1
  then show ?case by simp
next
  case (2 x xs)
  from 2(2) obtain f l tails later where x: "x = f @ [l]" and t: "collect_tails f xs = Inr tails"
    and j: "join_step (drop (length tails) xs) = Inr later"
    and cs: "cs = map (\<lambda>(a, b). f @ [a] @ [b]) (sort (combinations2 (l # tails))) @ later"
    by (rule join_step_Cons)
  have u: "unpack x = Some (f, l)" using x by (simp add: unpack_Some)
  have blk: "map (\<lambda>t. f @ [t]) (l # tails) = take (Suc (length tails)) (x # xs)"
    using collect_tails_block[OF t] x by simp
  have d_rest: "distinct (drop (length tails) xs)" using 2(3) by simp
  have d_later: "distinct later" by (rule 2(1)[OF u _ t j d_rest]) simp
  have "distinct (map (\<lambda>t. f @ [t]) (l # tails))"
    unfolding blk using 2(3) by (rule distinct_take)
  then have "distinct (l # tails)" by (simp only: distinct_map)
  then have "distinct (sort (combinations2 (l # tails)))"
    by (simp only: distinct_sort distinct_combinations2)
  then have d_new: "distinct (map (\<lambda>(a, b). f @ [a] @ [b]) (sort (combinations2 (l # tails))))"
    by (auto simp: distinct_map inj_on_def)
  have disj: False if c1: "c \<in> set (map (\<lambda>(a, b). f @ [a] @ [b]) (sort (combinations2 (l # tails))))"
    and c2: "c \<in> set later" for c
  proof -
    from c1 obtain a b where ab: "(a, b) \<in> set (combinations2 (l # tails))" "c = f @ [a, b]"
      by auto
    from combinations2_set[OF ab(1)] have "f @ [a] \<in> set (map (\<lambda>t. f @ [t]) (l # tails))"
      by auto
    then have m1: "butlast c \<in> set (take (Suc (length tails)) (x # xs))"
      unfolding blk using ab(2) by (simp add: butlast_append)
    from join_step_mem[OF j c2] obtain p a' b' where
      "c = p @ [a', b']" "p @ [a'] \<in> set (drop (length tails) xs)" by auto
    then have m2: "butlast c \<in> set (drop (Suc (length tails)) (x # xs))"
      by (simp add: butlast_append)
    from m1 m2 2(3) show False
      using set_take_disj_set_drop_if_distinct[of "x # xs" "Suc (length tails)" "Suc (length tails)"]
      by blast
  qed
  show ?case unfolding cs using d_new d_later disj by (auto simp only: distinct_append)
qed

lemma removed_last: "removed (p @ [a, b]) (Suc (length p)) = p @ [a]"
  by (simp add: removed_def)

lemma removed_second_last: "removed (p @ [a, b]) (length p) = p @ [b]"
  by (simp add: removed_def)

lemma set_removed: "set (removed c i) \<subseteq> set c"
  by (auto simp: removed_def dest: in_set_takeD in_set_dropD)

lemma length_removed: "i < length c \<Longrightarrow> length (removed c i) = length c - 1"
  by (auto simp: removed_def)

lemma distinct_removed: "distinct c \<Longrightarrow> distinct (removed c i)"
  unfolding removed_def
  by (metis append_take_drop_id distinct_append distinct_drop distinct_take drop_drop
      set_take_disj_set_drop_if_distinct order_refl le_add2 add.commute plus_1_eq_Suc)

lemma prune_check_enough:
  assumes "p @ [a] \<in> set L" "p @ [b] \<in> set L"
  shows "(\<forall>i \<in> set [0..<length (p @ [a, b]) - 2]. removed (p @ [a, b]) i \<in> set L)
     \<longleftrightarrow> (\<forall>i < length (p @ [a, b]). removed (p @ [a, b]) i \<in> set L)"
proof
  assume h: "\<forall>i \<in> set [0..<length (p @ [a, b]) - 2]. removed (p @ [a, b]) i \<in> set L"
  show "\<forall>i < length (p @ [a, b]). removed (p @ [a, b]) i \<in> set L"
  proof (intro allI impI)
    fix i assume "i < length (p @ [a, b])"
    then consider "i < length p" | "i = length p" | "i = Suc (length p)"
      by fastforce
    then show "removed (p @ [a, b]) i \<in> set L"
    proof cases
      case 1
      with h show ?thesis by simp
    next
      case 2
      with assms show ?thesis by (simp only: removed_second_last)
    next
      case 3
      with assms show ?thesis by (simp only: removed_last)
    qed
  qed
next
  assume "\<forall>i < length (p @ [a, b]). removed (p @ [a, b]) i \<in> set L"
  then show "\<forall>i \<in> set [0..<length (p @ [a, b]) - 2]. removed (p @ [a, b]) i \<in> set L"
    by simp
qed

section \<open>Counting\<close>

lemma count_of_increment:
  "count_of (increment kvs k) k' = count_of kvs k' + (if k = k' then 1 else 0)"
  by (induction kvs) (auto simp: count_of_def)

lemma map_fst_increment:
  "map fst (increment kvs k) = (if k \<in> fst ` set kvs then map fst kvs else map fst kvs @ [k])"
  by (induction kvs) force+

lemma fst_set_increment: "fst ` set (increment kvs k) = insert k (fst ` set kvs)"
proof -
  have "set (map fst (increment kvs k)) = insert k (set (map fst kvs))"
    unfolding map_fst_increment by auto
  then show ?thesis by simp
qed

lemma dict_ok_Nil: "dict_ok []"
  by (simp add: dict_ok_def)

lemma dict_ok_increment: "dict_ok kvs \<Longrightarrow> dict_ok (increment kvs k)"
proof (induction kvs)
  case Nil
  then show ?case by (simp add: dict_ok_def)
next
  case (Cons p kvs)
  obtain k' c where p: "p = (k', c)" by (cases p)
  from Cons.prems have ok: "dict_ok kvs" and nk: "k' \<notin> fst ` set kvs" and c: "0 < c"
    by (auto simp: dict_ok_def p)
  from Cons.IH[OF ok] have ih: "dict_ok (increment kvs k)" .
  show ?case
  proof (cases "k' = k")
    case True
    with Cons.prems show ?thesis by (auto simp: dict_ok_def p)
  next
    case False
    with nk have "k' \<notin> fst ` set (increment kvs k)" by (simp add: fst_set_increment)
    with ih c False show ?thesis by (auto simp: dict_ok_def p)
  qed
qed

lemma dict_ok_mem:
  assumes "dict_ok kvs"
  shows "(k, c) \<in> set kvs \<longleftrightarrow> 0 < c \<and> count_of kvs k = c"
proof
  assume m: "(k, c) \<in> set kvs"
  with assms have "map_of kvs k = Some c" by (simp add: dict_ok_def)
  with m assms show "0 < c \<and> count_of kvs k = c" by (auto simp: count_of_def dict_ok_def)
next
  assume "0 < c \<and> count_of kvs k = c"
  then show "(k, c) \<in> set kvs"
    by (auto simp: count_of_def split: option.splits dest: map_of_SomeD)
qed

lemma dict_ok_filter: "dict_ok kvs \<Longrightarrow> dict_ok (filter P kvs)"
  by (auto simp: dict_ok_def distinct_map_filter)

lemma scan_candidates_count:
  "count_of (fst (scan_candidates C t counts f)) S
     = count_of counts S + (if set S \<subseteq> set t then count_list C S else 0)"
  by (induction C arbitrary: counts f) (auto simp: count_of_increment)

lemma scan_candidates_dict_ok:
  "dict_ok counts \<Longrightarrow> dict_ok (fst (scan_candidates C t counts f))"
  by (induction C arbitrary: counts f) (auto simp: dict_ok_increment)

lemma scan_candidates_found: "snd (scan_candidates C t counts f) = (f \<or> matches C t)"
  by (induction C arbitrary: counts f) (auto simp: matches_def)

lemma scan_candidates_no_match:
  "\<not> matches C t \<Longrightarrow> scan_candidates C t counts f = (counts, f)"
  by (induction C arbitrary: counts f) (auto simp: matches_def)

lemma scan_rows_every_row_count:
  "count_of (scan_rows_every_row C txs counts) S
     = count_of counts S + count_list C S * support S txs"
  by (induction txs arbitrary: counts) (auto simp: scan_candidates_count support_def)

lemma scan_rows_every_row_dict_ok:
  "dict_ok counts \<Longrightarrow> dict_ok (scan_rows_every_row C txs counts)"
  by (induction txs arbitrary: counts) (auto simp: scan_candidates_dict_ok)

section \<open>The row-usage mask\<close>

lemma scan_rows_eq_every_row:
  "distinct (map fst rows) \<Longrightarrow> \<forall>(r, t) \<in> set rows. \<not> use r \<longrightarrow> \<not> matches C t \<Longrightarrow>
     fst (scan_rows C rows counts use) = scan_rows_every_row C (map snd rows) counts"
proof (induction rows arbitrary: counts use)
  case Nil
  then show ?case by simp
next
  case (Cons p rows)
  obtain r t where p: "p = (r, t)" by (cases p)
  from Cons.prems(1) have d: "distinct (map fst rows)" and nr: "r \<notin> fst ` set rows"
    by (auto simp: p)
  show ?case
  proof (cases "use r")
    case False
    with Cons.prems(2) have "\<not> matches C t" by (auto simp: p)
    then have "scan_candidates C t counts False = (counts, False)"
      by (rule scan_candidates_no_match)
    moreover have "fst (scan_rows C rows counts use) = scan_rows_every_row C (map snd rows) counts"
      using Cons.prems(2) by (intro Cons.IH[OF d]) (auto simp: p)
    ultimately show ?thesis using False by (simp add: p)
  next
    case True
    obtain counts' found where sc: "scan_candidates C t counts False = (counts', found)"
      by (cases "scan_candidates C t counts False")
    let ?use = "if \<not> found then use(r := False) else use"
    from nr have nr': "\<And>t'. (r, t') \<notin> set rows" by force
    have "\<forall>(r', t') \<in> set rows. \<not> ?use r' \<longrightarrow> \<not> matches C t'"
      using Cons.prems(2) nr' by (auto simp: p split: if_splits)
    from Cons.IH[OF d this]
    have "fst (scan_rows C rows counts' ?use) = scan_rows_every_row C (map snd rows) counts'" .
    with True sc show ?thesis by (simp add: p)
  qed
qed

lemma scan_rows_mask:
  "distinct (map fst rows) \<Longrightarrow>
     snd (scan_rows C rows counts use) r = (use r \<and> (\<forall>t. (r, t) \<in> set rows \<longrightarrow> matches C t))"
proof (induction rows arbitrary: counts use)
  case Nil
  then show ?case by simp
next
  case (Cons p rows)
  obtain r0 t0 where p: "p = (r0, t0)" by (cases p)
  from Cons.prems(1) have d: "distinct (map fst rows)" and nr: "r0 \<notin> fst ` set rows"
    by (auto simp: p)
  note ih = Cons.IH[OF d]
  show ?case
  proof (cases "use r0")
    case False
    with nr show ?thesis by (auto simp: p ih)
  next
    case True
    obtain counts' found where sc: "scan_candidates C t0 counts False = (counts', found)"
      by (cases "scan_candidates C t0 counts False")
    from scan_candidates_found[of C t0 counts False] sc have f: "found = matches C t0" by simp
    from nr have nr': "\<And>t. (r0, t) \<notin> set rows" by force
    show ?thesis using True sc f nr' by (auto simp: p ih)
  qed
qed

lemma scan_rows_mask_mono: "snd (scan_rows C rows counts use) r \<Longrightarrow> use r"
proof (induction rows arbitrary: counts use)
  case Nil
  then show ?case by simp
next
  case (Cons p rows)
  obtain r0 t0 where p: "p = (r0, t0)" by (cases p)
  from Cons.prems show ?case
    by (auto simp: p split: if_splits prod.splits dest!: Cons.IH)
qed

lemma scan_rows_skips_inactive:
  "distinct (map fst rows) \<Longrightarrow>
     scan_rows C rows counts use = scan_rows C (filter (\<lambda>(r, t). use r) rows) counts use"
proof (induction rows arbitrary: counts use)
  case Nil
  then show ?case by simp
next
  case (Cons p rows)
  obtain r0 t0 where p: "p = (r0, t0)" by (cases p)
  from Cons.prems(1) have d: "distinct (map fst rows)" and nr: "r0 \<notin> fst ` set rows"
    by (auto simp: p)
  note ih = Cons.IH[OF d]
  show ?case
  proof (cases "use r0")
    case False
    then show ?thesis by (simp add: p ih[of counts use])
  next
    case True
    obtain counts' found where sc: "scan_candidates C t0 counts False = (counts', found)"
      by (cases "scan_candidates C t0 counts False")
    let ?use = "if \<not> found then use(r0 := False) else use"
    from nr have nr': "\<And>t'. (r0, t') \<notin> set rows" by force
    have "filter (\<lambda>(r, t). ?use r) rows = filter (\<lambda>(r, t). use r) rows"
      using nr' by (intro filter_cong) (auto split: if_splits)
    with ih[of counts' ?use] True sc show ?thesis by (simp add: p)
  qed
qed

lemma enumerate_rows_fst: "map fst (enumerate_rows xs) = [0..<length xs]"
  by (simp add: enumerate_rows_def)

lemma enumerate_rows_snd: "map snd (enumerate_rows xs) = xs"
  by (simp add: enumerate_rows_def)

lemma enumerate_rows_mem: "(r, t) \<in> set (enumerate_rows xs) \<longleftrightarrow> r < length xs \<and> t = xs ! r"
proof
  assume "(r, t) \<in> set (enumerate_rows xs)"
  then show "r < length xs \<and> t = xs ! r"
    by (auto simp: enumerate_rows_def set_zip)
next
  assume h: "r < length xs \<and> t = xs ! r"
  then have "(r, t) = ([0..<length xs] ! r, xs ! r)" by simp
  with h show "(r, t) \<in> set (enumerate_rows xs)"
    unfolding enumerate_rows_def set_zip by (intro CollectI exI[of _ r]) simp
qed

lemma enumerate_rows_distinct: "distinct (map fst (enumerate_rows xs))"
  by (simp add: enumerate_rows_fst)

section \<open>One level of the loop\<close>

lemma support_mono: "set S' \<subseteq> set S \<Longrightarrow> support S txs \<le> support S' txs"
proof -
  assume h: "set S' \<subseteq> set S"
  have "length (filter (\<lambda>t. set S \<subseteq> set t) txs) \<le> length (filter (\<lambda>t. set S' \<subseteq> set t) txs)"
    by (induction txs) (use h in auto)
  then show ?thesis by (simp add: support_def)
qed

lemma support_pos_iff: "0 < support S txs \<longleftrightarrow> (\<exists>t \<in> set txs. set S \<subseteq> set t)"
  by (auto simp: support_def filter_empty_conv)

lemma count_list_distinct: "distinct xs \<Longrightarrow> count_list xs x = (if x \<in> set xs then 1 else 0)"
  by (induction xs) auto

lemma candidates_ok:
  assumes lv: "level_ok txs j prev" and j: "1 \<le> j"
    and jn: "join_step (map fst prev) = Inr possible"
    and S: "S \<in> set (prune_step (map fst prev) possible)"
  shows "length S = j + 1" and "distinct S" and "\<forall>i < j + 1. removed S i \<in> set (map fst prev)"
proof -
  from lv have srt: "sorted_wrt (<) (map fst prev)"
    and el: "\<And>T. T \<in> set (map fst prev) \<Longrightarrow> length T = j \<and> distinct T"
    by (auto simp: level_ok_def)
  from S have Sp: "S \<in> set possible"
    and chk: "\<forall>i \<in> set [0..<length S - 2]. removed S i \<in> set (map fst prev)"
    by (auto simp: prune_step_def)
  from join_step_mem_less[OF jn Sp srt] obtain p a b where
    c: "S = p @ [a, b]" and ab: "a < b" and pa: "p @ [a] \<in> set (map fst prev)"
    and pb: "p @ [b] \<in> set (map fst prev)"
    by blast
  from el[OF pa] have la: "length (p @ [a]) = j" and da: "distinct (p @ [a])" by blast+
  from el[OF pb] have db: "distinct (p @ [b])" by blast
  from la c show len: "length S = j + 1" by simp
  from da db ab c show "distinct S" by auto
  from chk have "\<forall>i < length S. removed S i \<in> set (map fst prev)"
    unfolding c by (simp only: prune_check_enough[OF pa pb])
  with len show "\<forall>i < j + 1. removed S i \<in> set (map fst prev)" by simp
qed

lemma candidates_distinct:
  assumes "level_ok txs j prev" and "join_step (map fst prev) = Inr possible"
  shows "distinct (prune_step (map fst prev) possible)"
proof -
  from assms(1) have "sorted_wrt (<) (map fst prev)" by (simp add: level_ok_def)
  then have "distinct (map fst prev)" by (simp add: strict_sorted_iff)
  from join_step_distinct[OF assms(2) this] show ?thesis by (simp add: prune_step_def)
qed

lemma candidates_total:
  assumes "level_ok txs j prev" and "1 \<le> j"
  shows "\<exists>possible. join_step (map fst prev) = Inr possible"
proof -
  from assms have "\<forall>y \<in> set (map fst prev). y \<noteq> []" by (fastforce simp: level_ok_def)
  then show ?thesis by (rule join_step_total)
qed

lemma counts_every_row:
  assumes "distinct C"
  shows "dict_ok (scan_rows_every_row C txs [])"
    and "(S, c) \<in> set (scan_rows_every_row C txs []) \<longleftrightarrow> S \<in> set C \<and> c = support S txs \<and> 0 < c"
proof -
  show ok: "dict_ok (scan_rows_every_row C txs [])"
    by (rule scan_rows_every_row_dict_ok[OF dict_ok_Nil])
  have z: "count_of [] S = 0" by (simp add: count_of_def)
  have "count_of (scan_rows_every_row C txs []) S = (if S \<in> set C then support S txs else 0)"
    unfolding scan_rows_every_row_count z count_list_distinct[OF assms] by simp
  then show "(S, c) \<in> set (scan_rows_every_row C txs []) \<longleftrightarrow> S \<in> set C \<and> c = support S txs \<and> 0 < c"
    unfolding dict_ok_mem[OF ok] by auto
qed

lemma keep_large_Inr:
  "counts = [] \<or> n \<noteq> 0 \<Longrightarrow>
     keep_large counts n ms = Inr (filter (\<lambda>(i, c). true_divide c n \<ge> ms) counts)"
  by (auto simp: keep_large_def)

lemma dict_of_distinct:
  assumes "distinct (map fst xs)"
  shows "dict_of xs = xs"
proof -
  have "distinct (map fst (acc @ ys)) \<Longrightarrow>
      foldl (\<lambda>d (k, v). AList.update k v d) acc ys = acc @ ys" for acc and ys :: "('a \<times> 'b) list"
  proof (induction ys arbitrary: acc)
    case Nil
    then show ?case by simp
  next
    case (Cons y ys)
    obtain k v where y: "y = (k, v)" by (cases y)
    from Cons.prems have nk: "k \<notin> fst ` set acc" by (auto simp: y)
    have upd: "AList.update k v acc = acc @ [(k, v)]"
      using nk by (induction acc) auto
    from Cons.prems have "distinct (map fst ((acc @ [(k, v)]) @ ys))" by (simp add: y)
    from Cons.IH[OF this] upd show ?case by (simp add: y)
  qed
  from this[of "[]" xs] assms show ?thesis by (simp add: dict_of_def)
qed

lemma fst_mono_prod: "(x :: 'a::linorder \<times> 'b::linorder) \<le> y \<Longrightarrow> fst x \<le> fst y"
  by (auto simp: less_eq_prod_def)

lemma sorted_keys_sort:
  fixes xs :: "('a::linorder \<times> 'b::linorder) list"
  assumes "distinct (map fst xs)"
  shows "sorted_wrt (<) (map fst (sort xs))"
proof -
  have "sorted (sort xs)" by simp
  then have "sorted_wrt (\<lambda>x y. fst x \<le> fst y) (sort xs)"
    by (rule sorted_wrt_mono_rel[rotated]) (rule fst_mono_prod)
  then have s: "sorted (map fst (sort xs))" by (simp add: sorted_wrt_map)
  from assms have "distinct (map fst (sort xs))" by (simp add: distinct_map)
  with s show ?thesis by (simp add: strict_sorted_iff)
qed

lemma update_new_key: "k \<notin> fst ` set al \<Longrightarrow> AList.update k v al = al @ [(k, v)]"
  by (induction al) auto

lemma matches_candidates:
  assumes lv: "level_ok txs j prev" and j: "1 \<le> j"
    and jn: "join_step (map fst prev) = Inr possible"
    and m: "matches (prune_step (map fst prev) possible) t"
  shows "matches (map fst prev) t"
proof -
  from m obtain S where S: "S \<in> set (prune_step (map fst prev) possible)" and sub: "set S \<subseteq> set t"
    by (auto simp: matches_def)
  from candidates_ok(3)[OF lv j jn S] have "removed S 0 \<in> set (map fst prev)" by simp
  moreover have "set (removed S 0) \<subseteq> set t" using set_removed[of S 0] sub by blast
  ultimately show ?thesis unfolding matches_def by blast
qed

lemma matches_subset: "set C' \<subseteq> set C \<Longrightarrow> matches C' t \<Longrightarrow> matches C t"
  by (auto simp: matches_def)

lemma itemset_length_bound:
  assumes "distinct S" and "0 < support S txs"
  shows "length S \<le> card (\<Union> (set ` set txs))"
proof -
  from assms(2) obtain t where t: "t \<in> set txs" "set S \<subseteq> set t"
    by (auto simp: support_pos_iff)
  then have "set S \<subseteq> \<Union> (set ` set txs)" by blast
  then have "card (set S) \<le> card (\<Union> (set ` set txs))" by (intro card_mono) auto
  with assms(1) show ?thesis by (simp add: distinct_card)
qed

lemma levels_ok_lookup:
  assumes "levels_ok txs large k" and "map_of large j = Some lev"
  shows "level_ok txs j lev" and "1 \<le> j" and "j < k"
proof -
  from assms(2) have m: "(j, lev) \<in> set large" by (rule map_of_SomeD)
  with assms(1) show "level_ok txs j lev" by (auto simp: levels_ok_def)
  from m have "j \<in> set (map fst large)" by force
  with assms(1) show "1 \<le> j" and "j < k" by (auto simp: levels_ok_def)
qed

lemma levels_ok_previous:
  assumes "levels_ok txs large k" and "2 \<le> k"
  shows "\<exists>prev. map_of large (k - 1) = Some prev"
proof -
  from assms have "k - 1 \<in> set (map fst large)" by (auto simp: levels_ok_def)
  then have "k - 1 \<in> dom (map_of large)" by (simp add: dom_map_of_conv_image_fst)
  then show ?thesis by blast
qed

lemma levels_ok_update:
  assumes inv: "levels_ok txs large k" and k: "2 \<le> k"
    and prev: "map_of large (k - 1) = Some prev"
    and new: "level_ok txs k new"
    and sub: "\<forall>(S, c) \<in> set new. \<forall>i < k. removed S i \<in> set (map fst prev)"
  shows "levels_ok txs (AList.update k new large) (k + 1)"
proof -
  from inv have keys: "map fst large = [1..<k]" and dc: "downward_closed large"
    and all: "\<forall>(j, lev) \<in> set large. level_ok txs j lev"
    by (auto simp: levels_ok_def)
  from keys have "k \<notin> set (map fst large)" by simp
  then have nk: "k \<notin> fst ` set large" by simp
  have upd: "AList.update k new large = large @ [(k, new)]" by (rule update_new_key[OF nk])
  have mo: "map_of (AList.update k new large) = (map_of large)(k \<mapsto> new)"
    by (rule update_conv')
  from levels_ok_lookup(1)[OF inv prev] have lvp: "level_ok txs (k - 1) prev" .
  have k1: "map fst (AList.update k new large) = [1..<k + 1]"
    using keys k by (simp add: upd)
  have k2: "\<forall>(j, lev) \<in> set (AList.update k new large). level_ok txs j lev"
    using all new by (auto simp: upd)
  have k3: "downward_closed (AList.update k new large)"
    unfolding downward_closed_def
  proof (intro allI impI)
    fix j lev S c i
    assume h: "map_of (AList.update k new large) j = Some lev \<and> 1 < j \<and> (S, c) \<in> set lev \<and> i < j"
    show "\<exists>prev c'. map_of (AList.update k new large) (j - 1) = Some prev \<and>
                   (removed S i, c') \<in> set prev \<and> c \<le> c'"
    proof (cases "j = k")
      case True
      with h have Sc: "(S, c) \<in> set new" and i: "i < k" by (auto simp: mo)
      from sub Sc i have "removed S i \<in> set (map fst prev)" by blast
      then obtain c' where c': "(removed S i, c') \<in> set prev" by auto
      from lvp c' have a: "support (removed S i) txs \<le> c'" by (auto simp: level_ok_def)
      from new Sc k have b: "c = support S txs" by (auto simp: level_ok_def)
      have "support S txs \<le> support (removed S i) txs"
        by (rule support_mono) (rule set_removed)
      with a b have "c \<le> c'" by simp
      moreover from k have "k - 1 \<noteq> k" by simp
      then have "map_of (AList.update k new large) (j - 1) = Some prev"
        using True prev by (simp add: mo)
      ultimately show ?thesis using c' by blast
    next
      case False
      with h have l: "map_of large j = Some lev" by (simp add: mo)
      from h l dc obtain prev' c' where p: "map_of large (j - 1) = Some prev'"
        "(removed S i, c') \<in> set prev'" "c \<le> c'"
        unfolding downward_closed_def by blast
      from levels_ok_lookup(3)[OF inv p(1)] have "j - 1 \<noteq> k" by simp
      with p show ?thesis by (auto simp: mo)
    qed
  qed
  from k1 k2 k3 show ?thesis by (simp add: levels_ok_def)
qed

lemma level_step:
  assumes inv: "levels_ok txs large k" and k: "2 \<le> k"
    and prev: "map_of large (k - 1) = Some prev"
    and mk: "mask_ok txs (map fst prev) use"
  obtains possible counts use' kept where
    "prev \<noteq> []"
    "join_step (map fst prev) = Inr possible"
    "scan_rows (prune_step (map fst prev) possible) (enumerate_rows txs) [] use = (counts, use')"
    "scan_rows_every_row (prune_step (map fst prev) possible) txs [] = counts"
    "keep_large counts (length txs) ms = Inr kept"
    "kept \<noteq> [] \<Longrightarrow> levels_ok txs (AList.update k (dict_of (sort kept)) large) (k + 1)"
    "kept \<noteq> [] \<Longrightarrow> map_of (AList.update k (dict_of (sort kept)) large) k = Some (dict_of (sort kept))"
    "kept \<noteq> [] \<Longrightarrow> mask_ok txs (map fst (dict_of (sort kept))) use'"
    "kept \<noteq> [] \<Longrightarrow> k \<le> card (\<Union> (set ` set txs))"
proof -
  from levels_ok_lookup(1)[OF inv prev] have lv: "level_ok txs (k - 1) prev" .
  from k have j: "1 \<le> k - 1" by simp
  from lv have ne: "prev \<noteq> []" by (simp add: level_ok_def)
  from candidates_total[OF lv j] obtain possible where jn: "join_step (map fst prev) = Inr possible"
    by blast
  define C where "C = prune_step (map fst prev) possible"
  have dC: "distinct C" unfolding C_def by (rule candidates_distinct[OF lv jn])
  have Cok: "length S = k \<and> distinct S \<and> (\<forall>i < k. removed S i \<in> set (map fst prev))"
    if "S \<in> set C" for S
    using candidates_ok[OF lv j jn that[unfolded C_def]] k by simp
  have no_match: "\<not> matches C (txs ! r)" if "r < length txs" "\<not> use r" for r
  proof
    assume "matches C (txs ! r)"
    then have "matches (map fst prev) (txs ! r)"
      unfolding C_def by (rule matches_candidates[OF lv j jn])
    with mk that show False by (simp add: mask_ok_def)
  qed
  define counts where "counts = fst (scan_rows C (enumerate_rows txs) [] use)"
  define use' where "use' = snd (scan_rows C (enumerate_rows txs) [] use)"
  have sc: "scan_rows C (enumerate_rows txs) [] use = (counts, use')"
    by (simp add: counts_def use'_def)
  have "\<forall>(r, t) \<in> set (enumerate_rows txs). \<not> use r \<longrightarrow> \<not> matches C t"
    using no_match by (auto simp: enumerate_rows_mem)
  from scan_rows_eq_every_row[OF enumerate_rows_distinct this]
  have ev: "scan_rows_every_row C txs [] = counts"
    by (simp add: counts_def enumerate_rows_snd)
  have ok: "dict_ok counts" unfolding ev[symmetric] by (rule counts_every_row(1)[OF dC])
  have mem: "(S, c) \<in> set counts \<longleftrightarrow> S \<in> set C \<and> c = support S txs \<and> 0 < c" for S c
    unfolding ev[symmetric] by (rule counts_every_row(2)[OF dC])
  have "counts = [] \<or> length txs \<noteq> 0"
  proof (cases counts)
    case Nil
    then show ?thesis by simp
  next
    case (Cons p ps)
    obtain S c where "p = (S, c)" by (cases p)
    with Cons have "(S, c) \<in> set counts" by simp
    with mem have "0 < support S txs" by simp
    then show ?thesis by (auto simp: support_pos_iff)
  qed
  from keep_large_Inr[OF this] obtain kept where
    kl: "keep_large counts (length txs) ms = Inr kept"
    and kept: "kept = filter (\<lambda>(i, c). true_divide c (length txs) \<ge> ms) counts"
    by blast
  from ok have okk: "dict_ok kept" unfolding kept by (rule dict_ok_filter)
  then have dk: "distinct (map fst (sort kept))" by (simp add: dict_ok_def distinct_map)
  have new: "dict_of (sort kept) = sort kept" by (rule dict_of_distinct[OF dk])
  have inC: "S \<in> set C \<and> c = support S txs \<and> 0 < c" if "(S, c) \<in> set (sort kept)" for S c
    using that mem[of S c] by (simp add: kept)
  have lvn: "level_ok txs k (sort kept)" if "kept \<noteq> []"
  proof -
    from that have a: "sort kept \<noteq> []" by (metis length_0_conv length_sort)
    from okk have "distinct (map fst kept)" by (simp add: dict_ok_def)
    then have b: "sorted_wrt (<) (map fst (sort kept))" by (rule sorted_keys_sort)
    have c: "\<forall>(S, c) \<in> set (sort kept).
         length S = k \<and> distinct S \<and> 0 < support S txs \<and>
         support S txs \<le> c \<and> (2 \<le> k \<longrightarrow> c = support S txs)"
      using inC Cok by fastforce
    from a b c show ?thesis unfolding level_ok_def by blast
  qed
  have sub: "\<forall>(S, c) \<in> set (sort kept). \<forall>i < k. removed S i \<in> set (map fst prev)"
    using inC Cok by fastforce
  have r1: "levels_ok txs (AList.update k (dict_of (sort kept)) large) (k + 1)" if "kept \<noteq> []"
    unfolding new by (rule levels_ok_update[OF inv k prev lvn[OF that] sub])
  have r2: "map_of (AList.update k (dict_of (sort kept)) large) k = Some (dict_of (sort kept))"
    by (simp add: update_conv')
  have r3: "mask_ok txs (map fst (dict_of (sort kept))) use'"
    unfolding new mask_ok_def
  proof (intro allI impI)
    fix r assume r: "r < length txs" and nu: "\<not> use' r"
    have "use' r = (use r \<and> (\<forall>t. (r, t) \<in> set (enumerate_rows txs) \<longrightarrow> matches C t))"
      unfolding use'_def by (rule scan_rows_mask[OF enumerate_rows_distinct])
    with nu r have "\<not> use r \<or> \<not> matches C (txs ! r)" by (auto simp: enumerate_rows_mem)
    with no_match[OF r] have nm: "\<not> matches C (txs ! r)" by blast
    have "set (map fst (sort kept)) \<subseteq> set C" using inC by auto
    from matches_subset[OF this] nm show "\<not> matches (map fst (sort kept)) (txs ! r)" by blast
  qed
  have r4: "k \<le> card (\<Union> (set ` set txs))" if "kept \<noteq> []"
  proof -
    from that have "sort kept \<noteq> []" by (metis length_0_conv length_sort)
    then obtain S c where "(S, c) \<in> set (sort kept)" by (cases "sort kept") auto
    with inC Cok have "length S = k" "distinct S" "0 < support S txs" by auto
    with itemset_length_bound[of S txs] show ?thesis by simp
  qed
  show ?thesis
    by (rule that[OF ne jn sc[unfolded C_def] ev[unfolded C_def] kl r1 r2 r3 r4])
qed

lemma level_loop_main:
  assumes "levels_ok txs large k" and "2 \<le> k" and "map_of large (k - 1) = Some prev"
    and "mask_ok txs (map fst prev) use"
  shows "\<exists>res k'. level_loop txs ms (length txs) large k use = Some (Inr res) \<and>
           level_loop_every_row txs ms (length txs) large k = Some (Inr res) \<and>
           levels_ok txs res k'"
  using assms
proof (induction "Suc (card (\<Union> (set ` set txs))) - k" arbitrary: large k prev use rule: less_induct)
  case less
  from level_step[OF less.prems, of ms] obtain possible counts use' kept where
    ne: "prev \<noteq> []"
    and jn: "join_step (map fst prev) = Inr possible"
    and sc: "scan_rows (prune_step (map fst prev) possible) (enumerate_rows txs) [] use = (counts, use')"
    and ev: "scan_rows_every_row (prune_step (map fst prev) possible) txs [] = counts"
    and kl: "keep_large counts (length txs) ms = Inr kept"
    and r1: "kept \<noteq> [] \<Longrightarrow> levels_ok txs (AList.update k (dict_of (sort kept)) large) (k + 1)"
    and r2: "kept \<noteq> [] \<Longrightarrow> map_of (AList.update k (dict_of (sort kept)) large) k = Some (dict_of (sort kept))"
    and r3: "kept \<noteq> [] \<Longrightarrow> mask_ok txs (map fst (dict_of (sort kept))) use'"
    and r4: "kept \<noteq> [] \<Longrightarrow> k \<le> card (\<Union> (set ` set txs))"
    by blast
  from less.prems(3) have p3: "map_of large (k - Suc 0) = Some prev" by simp
  have u1: "level_loop txs ms (length txs) large k use =
      (if kept = [] then Some (Inr large)
       else level_loop txs ms (length txs) (AList.update k (dict_of (sort kept)) large) (k + 1) use')"
    by (subst level_loop.simps) (simp add: p3 ne jn sc kl)
  have u2: "level_loop_every_row txs ms (length txs) large k =
      (if kept = [] then Some (Inr large)
       else level_loop_every_row txs ms (length txs)
              (AList.update k (dict_of (sort kept)) large) (k + 1))"
    by (subst level_loop_every_row.simps) (simp add: p3 ne jn ev kl)
  show ?case
  proof (cases "kept = []")
    case True
    with u1 u2 less.prems(1) show ?thesis by auto
  next
    case False
    from r4[OF False] have d: "Suc (card (\<Union> (set ` set txs))) - (k + 1) < Suc (card (\<Union> (set ` set txs))) - k"
      by simp
    have p: "map_of (AList.update k (dict_of (sort kept)) large) (k + 1 - 1) = Some (dict_of (sort kept))"
      using r2[OF False] by simp
    from less.hyps[OF d r1[OF False] _ p r3[OF False], of ] less.prems(2)
    have "\<exists>res k'. level_loop txs ms (length txs) (AList.update k (dict_of (sort kept)) large) (k + 1) use'
              = Some (Inr res) \<and>
           level_loop_every_row txs ms (length txs) (AList.update k (dict_of (sort kept)) large) (k + 1)
              = Some (Inr res) \<and>
           levels_ok txs res k'"
      by simp
    with u1 u2 False show ?thesis by simp
  qed
qed

section \<open>The first level\<close>

lemma count_of_foldl_increment:
  "count_of (foldl increment counts t) i = count_of counts i + count_list t i"
  by (induction t arbitrary: counts) (auto simp: count_of_increment)

lemma dict_ok_foldl_increment: "dict_ok counts \<Longrightarrow> dict_ok (foldl increment counts t)"
  by (induction t arbitrary: counts) (auto simp: dict_ok_increment)

lemma count_items_count:
  "count_of (fst (count_items txs counts n)) i
     = count_of counts i + sum_list (map (\<lambda>t. count_list t i) txs)"
  by (induction txs arbitrary: counts n) (auto simp: count_of_foldl_increment)

lemma count_items_dict_ok: "dict_ok counts \<Longrightarrow> dict_ok (fst (count_items txs counts n))"
  by (induction txs arbitrary: counts n) (auto simp: dict_ok_foldl_increment)

lemma count_items_num: "snd (count_items txs counts n) = n + length txs"
  by (induction txs arbitrary: counts n) auto

lemma support_single_le: "support [i] txs \<le> sum_list (map (\<lambda>t. count_list t i) txs)"
proof (induction txs)
  case Nil
  then show ?case by (simp add: support_def)
next
  case (Cons t txs)
  have "i \<in> set t \<Longrightarrow> 1 \<le> count_list t i"
    using count_list_0_iff[of t i] by (cases "count_list t i") auto
  with Cons show ?case by (auto simp: support_def)
qed

lemma occurs_support_pos:
  "0 < sum_list (map (\<lambda>t. count_list t i) txs) \<Longrightarrow> 0 < support [i] txs"
proof (induction txs)
  case Nil
  then show ?case by simp
next
  case (Cons t txs)
  show ?case
  proof (cases "i \<in> set t")
    case True
    then show ?thesis by (simp add: support_def)
  next
    case False
    with Cons show ?thesis by (simp add: support_def)
  qed
qed

lemma singletons_sorted:
  "sorted_wrt (<) (xs :: 'a::linorder list) \<Longrightarrow> sorted_wrt (<) (map (\<lambda>i. [i]) xs)"
  by (simp add: sorted_wrt_map)

lemma first_level:
  fixes txs :: "'a::linorder list list"
  assumes ci: "count_items txs [] 0 = (counts, n)"
  shows "n = length txs"
    and "\<exists>large1. keep_large counts n m = Inr large1 \<and>
           (large1 \<noteq> [] \<longrightarrow>
              levels_ok txs [(1, dict_of (map (\<lambda>(i, c). ([i], c)) (sort large1)))] 2)"
proof -
  from count_items_num[of txs "[]" 0] ci show n: "n = length txs" by simp
  from count_items_dict_ok[OF dict_ok_Nil, of txs 0] ci have ok: "dict_ok counts" by simp
  have cnt: "count_of counts i = sum_list (map (\<lambda>t. count_list t i) txs)" for i
    using count_items_count[of txs "[]" 0 i] ci by (simp add: count_of_def)
  have el: "0 < support [i] txs \<and> support [i] txs \<le> c" if "(i, c) \<in> set counts" for i c
  proof -
    from that have "0 < c" "count_of counts i = c" by (simp_all add: dict_ok_mem[OF ok])
    with cnt[of i] support_single_le[of i txs] occurs_support_pos[of i txs] show ?thesis by simp
  qed
  have "counts = [] \<or> n \<noteq> 0"
  proof (cases counts)
    case Nil
    then show ?thesis by simp
  next
    case (Cons p ps)
    obtain i c where "p = (i, c)" by (cases p)
    with Cons have "(i, c) \<in> set counts" by simp
    from el[OF this] have "0 < support [i] txs" by simp
    then show ?thesis by (auto simp: support_pos_iff n)
  qed
  from keep_large_Inr[OF this] obtain large1 where
    kl: "keep_large counts n m = Inr large1"
    and l1: "large1 = filter (\<lambda>(i, c). true_divide c n \<ge> m) counts"
    by blast
  have ok1: "dict_ok large1" unfolding l1 by (rule dict_ok_filter[OF ok])
  then have d1: "distinct (map fst large1)" by (simp add: dict_ok_def)
  let ?lev = "map (\<lambda>(i, c). ([i], c)) (sort large1)"
  have keys: "map fst ?lev = map (\<lambda>i. [i]) (map fst (sort large1))"
    by (simp add: case_prod_unfold comp_def)
  have srt: "sorted_wrt (<) (map fst ?lev)"
    unfolding keys by (rule singletons_sorted[OF sorted_keys_sort[OF d1]])
  then have "distinct (map fst ?lev)" by (simp add: strict_sorted_iff)
  then have new: "dict_of ?lev = ?lev" by (rule dict_of_distinct)
  have lv: "level_ok txs 1 ?lev" if "large1 \<noteq> []"
  proof -
    from that have a: "?lev \<noteq> []" by (metis length_0_conv length_sort map_is_Nil_conv)
    have c: "\<forall>(S, c) \<in> set ?lev.
         length S = 1 \<and> distinct S \<and> 0 < support S txs \<and>
         support S txs \<le> c \<and> (2 \<le> (1::nat) \<longrightarrow> c = support S txs)"
      using el by (auto simp: l1)
    from a srt c show ?thesis unfolding level_ok_def by blast
  qed
  have u: "[1..<2] = [1::nat]" by (simp add: upt_rec)
  have "levels_ok txs [(1, dict_of ?lev)] 2" if "large1 \<noteq> []"
    unfolding new levels_ok_def downward_closed_def u using lv[OF that] by auto
  with kl show "\<exists>large1. keep_large counts n m = Inr large1 \<and>
           (large1 \<noteq> [] \<longrightarrow>
              levels_ok txs [(1, dict_of (map (\<lambda>(i, c). ([i], c)) (sort large1)))] 2)"
    by blast
qed

lemma mining_core:
  fixes txs :: "'a::linorder list list"
  assumes "snd (sanitize t s) = Inr (txs, m)"
  shows "\<exists>res k. itemsets_from_transactions t s = Some (Inr (res, length txs)) \<and>
           itemsets_from_transactions_every_row t s = Some (Inr (res, length txs)) \<and>
           levels_ok txs res k"
proof -
  obtain counts n where ci: "count_items txs [] 0 = (counts, n)"
    by (cases "count_items txs [] 0")
  from first_level(1)[OF ci] have n: "n = length txs" .
  from first_level(2)[OF ci, of m] obtain large1 where
    kl: "keep_large counts n m = Inr large1"
    and l1: "large1 \<noteq> [] \<Longrightarrow>
        levels_ok txs [(1, dict_of (map (\<lambda>(i, c). ([i], c)) (sort large1)))] 2"
    by blast
  show ?thesis
  proof (cases "large1 = []")
    case True
    have "levels_ok txs [] 1" by (simp add: levels_ok_def downward_closed_def)
    with True assms ci kl n show ?thesis
      by (auto simp: itemsets_from_transactions_def itemsets_from_transactions_every_row_def)
  next
    case False
    let ?l = "[(1 :: nat, dict_of (map (\<lambda>(i, c). ([i], c)) (sort large1)))]"
    have p: "map_of ?l (2 - 1) = Some (dict_of (map (\<lambda>(i, c). ([i], c)) (sort large1)))"
      by simp
    have mk: "mask_ok txs (map fst (dict_of (map (\<lambda>(i, c). ([i], c)) (sort large1)))) (\<lambda>row. True)"
      by (simp add: mask_ok_def)
    from level_loop_main[OF l1[OF False] order_refl p mk, of m] obtain res k where
      "level_loop txs m (length txs) ?l 2 (\<lambda>row. True) = Some (Inr res)"
      "level_loop_every_row txs m (length txs) ?l 2 = Some (Inr res)"
      "levels_ok txs res k"
      by blast
    with False assms ci kl n show ?thesis
      by (auto simp: itemsets_from_transactions_def itemsets_from_transactions_every_row_def)
  qed
qed

section \<open>Consequences for the whole function\<close>

lemma sanitize_Collection:
  "valid_support s \<Longrightarrow>
     \<exists>m. s = Number m \<and>
         snd (sanitize (Collection ts) s) = Inr (map remdups (filter (\<lambda>t. length t > 0) ts), m)"
  by (cases s) (auto simp: sanitize_cases check_support_def valid_support_def)

lemma sanitize_Generator:
  "valid_support s \<Longrightarrow>
     \<exists>m. s = Number m \<and> snd (sanitize (Callable (Generator g)) s) = Inr (g, m)"
  by (cases s) (auto simp: sanitize_cases check_support_def valid_support_def)

lemma sanitize_accepted:
  assumes "accepted_transactions t" and "valid_support s"
  shows "\<exists>txs m. snd (sanitize t s) = Inr (txs, m) \<and>
           \<Union> (set ` set txs) = \<Union> (set ` set (source_transactions t))"
proof (cases t)
  case (Collection ts)
  have "\<Union> (set ` set (map remdups (filter (\<lambda>t. length t > 0) ts))) = \<Union> (set ` set ts)"
    by fastforce
  with sanitize_Collection[OF assms(2), of ts] show ?thesis
    unfolding Collection source_transactions_def by auto
next
  case (Callable r)
  with assms(1) obtain g where "r = Generator g"
    by (cases r) (auto simp: accepted_transactions_def)
  with sanitize_Generator[OF assms(2), of g] show ?thesis
    by (auto simp: Callable source_transactions_def)
next
  case Neither
  with assms(1) show ?thesis by (simp add: accepted_transactions_def)
qed

lemma sanitize_rejected:
  "\<not> accepted_transactions t \<or> \<not> valid_support s \<Longrightarrow> \<exists>e. snd (sanitize t s) = Inl e"
  by (cases t; cases s)
     (auto simp: sanitize_cases check_support_def valid_support_def accepted_transactions_def
           split: returned.splits)

lemma rejected_result:
  "snd (sanitize t s) = Inl e \<Longrightarrow> itemsets_from_transactions t s = Some (Inl e)"
  by (simp add: itemsets_from_transactions_def)

lemma rejected_result_every_row:
  "snd (sanitize t s) = Inl e \<Longrightarrow> itemsets_from_transactions_every_row t s = Some (Inl e)"
  by (simp add: itemsets_from_transactions_every_row_def)

lemma levels_ok_length:
  assumes "levels_ok txs res k"
  shows "length res \<le> card (\<Union> (set ` set txs))"
proof (cases "res = []")
  case True
  then show ?thesis by simp
next
  case False
  from assms have keys: "map fst res = [1..<k]" by (simp add: levels_ok_def)
  then have len: "length res = k - 1" by (metis length_map length_upt)
  with False have "k - 1 \<in> set [1..<k]" by (cases res) auto
  with keys have "k - 1 \<in> fst ` set res" by (metis list.set_map)
  then obtain lev where m: "(k - 1, lev) \<in> set res" by auto
  with assms have lv: "level_ok txs (k - 1) lev" by (auto simp: levels_ok_def)
  then obtain S c where "(S, c) \<in> set lev" by (cases lev) (auto simp: level_ok_def)
  with lv have "length S = k - 1" "distinct S" "0 < support S txs" by (auto simp: level_ok_def)
  with itemset_length_bound[of S txs] len show ?thesis by simp
qed

lemma levels_ok_downward:
  assumes "levels_ok txs res k'" and "map_of res k = Some lev" and "1 < k" and "(S, c) \<in> set lev"
  shows "length S = k"
    and "\<forall>i < length S. \<exists>prev c'. map_of res (k - 1) = Some prev \<and>
            (removed S i, c') \<in> set prev \<and> c \<le> c'"
proof -
  from levels_ok_lookup(1)[OF assms(1,2)] assms(4) show l: "length S = k"
    by (auto simp: level_ok_def)
  from assms(1) have "downward_closed res" by (simp add: levels_ok_def)
  with assms(2-4) l show "\<forall>i < length S. \<exists>prev c'. map_of res (k - 1) = Some prev \<and>
            (removed S i, c') \<in> set prev \<and> c \<le> c'"
    unfolding downward_closed_def by blast
qed

lemma paper_example:
  "itemsets_from_transactions
     (Collection [[1, 3, 4], [2, 3, 5], [1, 2, 3, 5], [2, 5 :: int]]) (Number (2 / 5))
   = Some (Inr ([(1, [([1], 2), ([2], 3), ([3], 3), ([5], 3)]),
                 (2, [([1, 3], 2), ([2, 3], 2), ([2, 5], 3), ([3, 5], 2)]),
                 (3, [([2, 3, 5], 2)])],
                4))"
  by code_simp

section \<open>The threshold\<close>

lemma set_update_subset: "set (AList.update k v al) \<subseteq> insert (k, v) (set al)"
  by (induction al) auto

lemma set_dict_of_subset: "set (dict_of xs) \<subseteq> set xs"
proof -
  have "set (foldl (\<lambda>d (k, v). AList.update k v d) acc ys) \<subseteq> set acc \<union> set ys"
    for acc and ys :: "('a \<times> 'b) list"
  proof (induction ys arbitrary: acc)
    case Nil
    then show ?case by simp
  next
    case (Cons y ys)
    obtain k v where y: "y = (k, v)" by (cases y)
    from Cons[of "AList.update k v acc"] set_update_subset[of k v acc]
    show ?case by (auto simp: y)
  qed
  from this[of "[]" xs] show ?thesis by (simp add: dict_of_def)
qed

lemma keep_large_threshold:
  "keep_large counts n ms = Inr kept \<Longrightarrow> (S, c) \<in> set kept \<Longrightarrow> ms \<le> true_divide c n"
  by (auto simp: keep_large_def split: if_splits)

lemma above_threshold_update:
  assumes "above_threshold ms n large" and "keep_large counts n ms = Inr kept"
  shows "above_threshold ms n (AList.update k (dict_of (sort kept)) large)"
proof -
  have "ms \<le> true_divide c n" if "(S, c) \<in> set (dict_of (sort kept))" for S c
  proof -
    from that set_dict_of_subset[of "sort kept"] have "(S, c) \<in> set kept" by auto
    with assms(2) show ?thesis by (rule keep_large_threshold)
  qed
  with assms(1) set_update_subset[of k "dict_of (sort kept)" large] show ?thesis
    unfolding above_threshold_def by fastforce
qed

lemma level_loop_body_cases:
  assumes "(case map_of large (k - 1) of
              None \<Rightarrow> Some (Inl KeyError)
            | Some previous \<Rightarrow>
                if previous = [] then Some (Inr large)
                else
                  (case join_step (map fst previous) of
                     Inl e \<Rightarrow> Some (Inl e)
                   | Inr possible \<Rightarrow>
                       (case scan_rows (prune_step (map fst previous) possible)
                               (enumerate_rows txs) [] use of
                          (counts, use') \<Rightarrow>
                            (case keep_large counts n ms of
                               Inl e \<Rightarrow> Some (Inl e)
                             | Inr C_k \<Rightarrow>
                                 if C_k = [] then Some (Inr large)
                                 else f txs ms n (AList.update k (dict_of (sort C_k)) large)
                                        (k + 1) use')))) = Some y"
  obtains (no_level) "map_of large (k - 1) = None" and "y = Inl KeyError"
  | (empty_level) "map_of large (k - 1) = Some []" and "y = Inr large"
  | (join_error) prev e where
      "map_of large (k - 1) = Some prev" and "prev \<noteq> []"
      and "join_step (map fst prev) = Inl e" and "y = Inl e"
  | (keep_error) prev possible counts use' e where
      "map_of large (k - 1) = Some prev" and "prev \<noteq> []"
      and "join_step (map fst prev) = Inr possible"
      and "scan_rows (prune_step (map fst prev) possible) (enumerate_rows txs) [] use
             = (counts, use')"
      and "keep_large counts n ms = Inl e" and "y = Inl e"
  | (break) prev possible counts use' where
      "map_of large (k - 1) = Some prev" and "prev \<noteq> []"
      and "join_step (map fst prev) = Inr possible"
      and "scan_rows (prune_step (map fst prev) possible) (enumerate_rows txs) [] use
             = (counts, use')"
      and "keep_large counts n ms = Inr []" and "y = Inr large"
  | (continue) prev possible counts use' kept where
      "map_of large (k - 1) = Some prev" and "prev \<noteq> []"
      and "join_step (map fst prev) = Inr possible"
      and "scan_rows (prune_step (map fst prev) possible) (enumerate_rows txs) [] use
             = (counts, use')"
      and "keep_large counts n ms = Inr kept" and "kept \<noteq> []"
      and "f txs ms n (AList.update k (dict_of (sort kept)) large) (k + 1) use' = Some y"
  using assms by (auto split: option.splits if_splits sum.splits prod.splits)

lemma level_loop_threshold:
  assumes "level_loop txs ms n large k use = Some y"
  shows "\<forall>res. y = Inr res \<longrightarrow> above_threshold ms n large \<longrightarrow> above_threshold ms n res"
proof (rule level_loop.raw_induct[where P = "\<lambda>txs ms n large k use y.
    \<forall>res. y = Inr res \<longrightarrow> above_threshold ms n large \<longrightarrow> above_threshold ms n res", OF _ assms],
    goal_cases)
  case (1 loop txs ms n large k use y)
  show ?case
  proof (intro allI impI)
    fix res assume y: "y = Inr res" and ab: "above_threshold ms n large"
    from 1(2) show "above_threshold ms n res"
    proof (cases rule: level_loop_body_cases)
      case no_level
      with y show ?thesis by simp
    next
      case empty_level
      with y ab show ?thesis by simp
    next
      case (join_error prev e)
      with y show ?thesis by simp
    next
      case (keep_error prev possible counts use' e)
      with y show ?thesis by simp
    next
      case (break prev possible counts use')
      with y ab show ?thesis by simp
    next
      case (continue prev possible counts use' kept)
      from above_threshold_update[OF ab continue(5)] 1(1)[OF continue(7)] y
      show ?thesis by blast
    qed
  qed
qed

lemma first_level_threshold:
  assumes "keep_large counts n m = Inr large1"
  shows "above_threshold m n [(1, dict_of (map (\<lambda>(i, c). ([i], c)) (sort large1)))]"
proof -
  have "m \<le> true_divide c n"
    if "(S, c) \<in> set (dict_of (map (\<lambda>(i, c). ([i], c)) (sort large1)))" for S c
  proof -
    from that set_dict_of_subset[of "map (\<lambda>(i, c). ([i], c)) (sort large1)"]
    have "(S, c) \<in> set (map (\<lambda>(i, c). ([i], c)) (sort large1))" by blast
    then obtain i where "(i, c) \<in> set large1" by auto
    with assms show ?thesis by (rule keep_large_threshold)
  qed
  then show ?thesis unfolding above_threshold_def by auto
qed

lemma result_threshold:
  assumes r: "itemsets_from_transactions t s = Some (Inr (levels, n))"
    and sn: "snd (sanitize t s) = Inr (txs, m)"
  shows "above_threshold m n levels"
proof -
  obtain counts n' where ci: "count_items txs [] 0 = (counts, n')"
    by (cases "count_items txs [] 0")
  from r sn ci obtain large1 where kl: "keep_large counts n' m = Inr large1"
    by (cases "keep_large counts n' m") (auto simp: itemsets_from_transactions_def)
  show ?thesis
  proof (cases "large1 = []")
    case True
    with r sn ci kl have "levels = []"
      by (simp add: itemsets_from_transactions_def)
    then show ?thesis by (simp add: above_threshold_def)
  next
    case False
    let ?l = "[(1 :: nat, dict_of (map (\<lambda>(i, c). ([i], c)) (sort large1)))]"
    from False r sn ci kl have "level_loop txs m n' ?l 2 (\<lambda>row. True) = Some (Inr levels)"
      and n: "n = n'"
      by (auto simp: itemsets_from_transactions_def split: option.splits sum.splits)
    from level_loop_threshold[OF this(1)] first_level_threshold[OF kl] n
    show ?thesis by blast
  qed
qed

section \<open>Rows marked inactive\<close>

lemma enumerate_rows_map: "enumerate_rows xs = map (\<lambda>r. (r, xs ! r)) [0..<length xs]"
  unfolding enumerate_rows_def by (rule nth_equalityI) auto

lemma scan_rows_agree:
  assumes "length txs' = length txs" and "\<forall>r < length txs. use r \<longrightarrow> txs' ! r = txs ! r"
  shows "scan_rows C (enumerate_rows txs') counts use = scan_rows C (enumerate_rows txs) counts use"
proof -
  have "filter (\<lambda>(r, t). use r) (enumerate_rows txs')
      = map (\<lambda>r. (r, txs' ! r)) (filter use [0..<length txs])"
    by (simp add: enumerate_rows_map filter_map comp_def assms(1))
  also have "\<dots> = map (\<lambda>r. (r, txs ! r)) (filter use [0..<length txs])"
    using assms(2) by (intro map_cong) auto
  also have "\<dots> = filter (\<lambda>(r, t). use r) (enumerate_rows txs)"
    by (simp add: enumerate_rows_map filter_map comp_def)
  finally show ?thesis
    using scan_rows_skips_inactive[OF enumerate_rows_distinct, of C txs' counts use]
      scan_rows_skips_inactive[OF enumerate_rows_distinct, of C txs counts use]
    by simp
qed

lemma level_loop_agree:
  assumes "level_loop txs ms n large k use = Some y"
  shows "\<forall>txs'. length txs' = length txs \<and> (\<forall>r < length txs. use r \<longrightarrow> txs' ! r = txs ! r) \<longrightarrow>
           level_loop txs' ms n large k use = Some y"
proof (rule level_loop.raw_induct[where P = "\<lambda>txs ms n large k use y.
    \<forall>txs'. length txs' = length txs \<and> (\<forall>r < length txs. use r \<longrightarrow> txs' ! r = txs ! r) \<longrightarrow>
           level_loop txs' ms n large k use = Some y", OF _ assms],
    goal_cases)
  case (1 loop txs ms n large k use y)
  show ?case
  proof (intro allI impI)
    fix txs'
    assume ag: "length txs' = length txs \<and> (\<forall>r < length txs. use r \<longrightarrow> txs' ! r = txs ! r)"
    then have sc: "scan_rows C (enumerate_rows txs') [] use = scan_rows C (enumerate_rows txs) [] use"
      for C by (intro scan_rows_agree) auto
    from 1(2) show "level_loop txs' ms n large k use = Some y"
    proof (cases rule: level_loop_body_cases)
      case no_level
      then show ?thesis by (subst level_loop.simps) simp
    next
      case empty_level
      then show ?thesis by (subst level_loop.simps) simp
    next
      case (join_error prev e)
      then show ?thesis by (subst level_loop.simps) simp
    next
      case (keep_error prev possible counts use' e)
      then show ?thesis by (subst level_loop.simps) (simp add: sc)
    next
      case (break prev possible counts use')
      then show ?thesis by (subst level_loop.simps) (simp add: sc)
    next
      case (continue prev possible counts use' kept)
      have "use r" if "use' r" for r
        using scan_rows_mask_mono[of "prune_step (map fst prev) possible" "enumerate_rows txs" "[]" use r]
          that continue(4) by simp
      with ag have "length txs' = length txs \<and> (\<forall>r < length txs. use' r \<longrightarrow> txs' ! r = txs ! r)"
        by blast
      with 1(1)[OF continue(7)]
      have "level_loop txs' ms n (AList.update k (dict_of (sort kept)) large) (k + 1) use' = Some y"
        by blast
      with continue(1-6) show ?thesis by (subst level_loop.simps) (simp add: sc)
    qed
  qed
qed

lemma level_loop_ignores_inactive:
  assumes "length txs' = length txs" and "\<forall>r < length txs. use r \<longrightarrow> txs' ! r = txs ! r"
  shows "level_loop txs' ms n large k use = level_loop txs ms n large k use"
proof (cases "level_loop txs ms n large k use")
  case (Some y)
  with level_loop_agree[OF Some] assms show ?thesis by simp
next
  case None
  show ?thesis
  proof (cases "level_loop txs' ms n large k use")
    case n: None
    with None show ?thesis by simp
  next
    case (Some y)
    from assms have "length txs = length txs' \<and> (\<forall>r < length txs'. use r \<longrightarrow> txs ! r = txs' ! r)"
      by simp
    with level_loop_agree[OF Some] None show ?thesis by simp
  qed
qed

section \<open>The order in which a set is iterated\<close>

text \<open>
  \<^verbatim>\<open>set(t)\<close> is modelled by \<open>remdups t\<close>, which fixes an order of iteration that
  Python leaves open. The result does not depend on it: transactions with the same items, in
  any order, give the same result.
\<close>

lemma scan_candidates_set_cong:
  "set t' = set t \<Longrightarrow> scan_candidates C t' counts f = scan_candidates C t counts f"
  by (induction C arbitrary: counts f) auto

lemma scan_rows_set_cong:
  "map fst rows' = map fst rows \<Longrightarrow> map (\<lambda>p. set (snd p)) rows' = map (\<lambda>p. set (snd p)) rows \<Longrightarrow>
     scan_rows C rows' counts use = scan_rows C rows counts use"
proof (induction rows arbitrary: rows' counts use)
  case Nil
  then show ?case by simp
next
  case (Cons p rows)
  from Cons.prems(1) obtain p' rs' where r': "rows' = p' # rs'" by (cases rows') auto
  obtain r t where p: "p = (r, t)" by (cases p)
  obtain r0 t' where p': "p' = (r0, t')" by (cases p')
  from Cons.prems have e: "r0 = r" "set t' = set t" "map fst rs' = map fst rows"
    "map (\<lambda>p. set (snd p)) rs' = map (\<lambda>p. set (snd p)) rows"
    by (auto simp: r' p p')
  note ih = Cons.IH[OF e(3,4)]
  show ?case
    by (simp add: r' p p' e(1) scan_candidates_set_cong[OF e(2)] ih split: prod.splits)
qed

lemma enumerate_rows_set_cong:
  assumes "map set txs' = map set txs"
  shows "scan_rows C (enumerate_rows txs') counts use = scan_rows C (enumerate_rows txs) counts use"
proof -
  from assms have l: "length txs' = length txs" by (metis length_map)
  have a: "map fst (enumerate_rows txs') = map fst (enumerate_rows txs)"
    by (simp add: enumerate_rows_fst l)
  have "map (\<lambda>p. set (snd p)) (enumerate_rows xs) = map set xs" for xs :: "'a list list"
  proof -
    have "map (\<lambda>p. set (snd p)) (enumerate_rows xs) = map set (map snd (enumerate_rows xs))"
      by simp
    then show ?thesis by (simp only: enumerate_rows_snd)
  qed
  with assms have b: "map (\<lambda>p. set (snd p)) (enumerate_rows txs') = map (\<lambda>p. set (snd p)) (enumerate_rows txs)"
    by simp
  from a b show ?thesis by (rule scan_rows_set_cong)
qed

lemma level_loop_set_agree:
  assumes "level_loop txs ms n large k use = Some y"
  shows "\<forall>txs'. map set txs' = map set txs \<longrightarrow> level_loop txs' ms n large k use = Some y"
proof (rule level_loop.raw_induct[where P = "\<lambda>txs ms n large k use y.
    \<forall>txs'. map set txs' = map set txs \<longrightarrow> level_loop txs' ms n large k use = Some y",
    OF _ assms], goal_cases)
  case (1 loop txs ms n large k use y)
  show ?case
  proof (intro allI impI)
    fix txs' :: "'a list list"
    assume ag: "map set txs' = map set txs"
    then have sc: "scan_rows C (enumerate_rows txs') [] use = scan_rows C (enumerate_rows txs) [] use"
      for C by (rule enumerate_rows_set_cong)
    from 1(2) show "level_loop txs' ms n large k use = Some y"
    proof (cases rule: level_loop_body_cases)
      case no_level
      then show ?thesis by (subst level_loop.simps) simp
    next
      case empty_level
      then show ?thesis by (subst level_loop.simps) simp
    next
      case (join_error prev e)
      then show ?thesis by (subst level_loop.simps) simp
    next
      case (keep_error prev possible counts use' e)
      then show ?thesis by (subst level_loop.simps) (simp add: sc)
    next
      case (break prev possible counts use')
      then show ?thesis by (subst level_loop.simps) (simp add: sc)
    next
      case (continue prev possible counts use' kept)
      from 1(1)[OF continue(7)] ag
      have "level_loop txs' ms n (AList.update k (dict_of (sort kept)) large) (k + 1) use' = Some y"
        by blast
      with continue(1-6) show ?thesis by (subst level_loop.simps) (simp add: sc)
    qed
  qed
qed

lemma level_loop_set_cong:
  assumes "map set txs' = map set txs"
  shows "level_loop txs' ms n large k use = level_loop txs ms n large k use"
proof (cases "level_loop txs ms n large k use")
  case (Some y)
  with level_loop_set_agree[OF Some] assms show ?thesis by simp
next
  case None
  show ?thesis
  proof (cases "level_loop txs' ms n large k use")
    case n: None
    with None show ?thesis by simp
  next
    case (Some y)
    with level_loop_set_agree[OF Some] assms[symmetric] None show ?thesis by simp
  qed
qed

lemma occurrences_set_cong:
  assumes "map set txs' = map set txs" and "\<forall>t \<in> set txs. distinct t" and "\<forall>t \<in> set txs'. distinct t"
  shows "sum_list (map (\<lambda>t. count_list t i) txs') = sum_list (map (\<lambda>t. count_list t i) txs)"
  using assms
proof (induction txs arbitrary: txs')
  case Nil
  then show ?case by simp
next
  case (Cons t txs)
  from Cons.prems(1) obtain t' ts' where r: "txs' = t' # ts'" by (cases txs') auto
  with Cons.prems have e: "set t' = set t" "map set ts' = map set txs" "distinct t" "distinct t'"
    "\<forall>t \<in> set txs. distinct t" "\<forall>t \<in> set ts'. distinct t"
    by auto
  from e(1,3,4) have "count_list t' i = count_list t i" by (simp add: count_list_distinct)
  with Cons.IH[OF e(2,5,6)] show ?case by (simp add: r)
qed

lemma sort_set_cong:
  fixes xs ys :: "'b::linorder list"
  assumes "distinct xs" and "distinct ys" and "set xs = set ys"
  shows "sort xs = sort ys"
  by (rule sorted_distinct_set_unique) (use assms in simp_all)

lemma first_counts_set_cong:
  fixes txs :: "'a::linorder list list"
  assumes "map set txs' = map set txs" and "\<forall>t \<in> set txs. distinct t" and "\<forall>t \<in> set txs'. distinct t"
  shows "set (fst (count_items txs' [] 0)) = set (fst (count_items txs [] 0))"
    and "dict_ok (fst (count_items txs' [] 0))" and "dict_ok (fst (count_items txs [] 0))"
proof -
  show ok': "dict_ok (fst (count_items txs' [] 0))" by (rule count_items_dict_ok[OF dict_ok_Nil])
  show ok: "dict_ok (fst (count_items txs [] 0))" by (rule count_items_dict_ok[OF dict_ok_Nil])
  have "count_of (fst (count_items txs' [] 0)) i = count_of (fst (count_items txs [] 0)) i" for i
    by (simp only: count_items_count occurrences_set_cong[OF assms])
  then show "set (fst (count_items txs' [] 0)) = set (fst (count_items txs [] 0))"
    using dict_ok_mem[OF ok'] dict_ok_mem[OF ok] by auto
qed

lemma generator_order_irrelevant:
  fixes g :: "'a::linorder list list"
  assumes "map set g' = map set g" and "\<forall>t \<in> set g. distinct t" and "\<forall>t \<in> set g'. distinct t"
  shows "itemsets_from_transactions (Callable (Generator g')) s
           = itemsets_from_transactions (Callable (Generator g)) s"
proof (cases "check_support s")
  case (Inl e)
  then show ?thesis by (simp add: itemsets_from_transactions_def sanitize_cases)
next
  case (Inr m)
  obtain counts n where ci: "count_items g [] 0 = (counts, n)" by (cases "count_items g [] 0")
  obtain counts' n' where ci': "count_items g' [] 0 = (counts', n')" by (cases "count_items g' [] 0")
  from assms(1) have "length g' = length g" by (metis length_map)
  with count_items_num[of g "[]" 0] count_items_num[of g' "[]" 0] ci ci' have n: "n' = n" by simp
  from first_counts_set_cong[OF assms] ci ci' have st: "set counts' = set counts"
    and ok': "dict_ok counts'" and ok: "dict_ok counts" by simp_all
  let ?P = "\<lambda>(i, c). true_divide c n \<ge> m"
  from st have emp: "counts' = [] \<longleftrightarrow> counts = []" by (metis set_empty)
  have d: "distinct (filter ?P counts)" "distinct (filter ?P counts')"
    using ok ok' by (auto simp: dict_ok_def dest: distinct_map[THEN iffD1])
  from st have "set (filter ?P counts') = set (filter ?P counts)" by auto
  from sort_set_cong[OF d(2) d(1) this] have srt: "sort (filter ?P counts') = sort (filter ?P counts)" .
  from st have fe: "filter ?P counts' = [] \<longleftrightarrow> filter ?P counts = []"
    by (auto simp: filter_empty_conv)
  show ?thesis
    using Inr ci ci' n emp srt fe level_loop_set_cong[OF assms(1)]
    by (simp add: itemsets_from_transactions_def sanitize_cases keep_large_def)
qed

lemma collection_as_sets:
  fixes ts :: "'a::linorder list list"
  assumes "\<And>t. set (as_set t) = set t \<and> distinct (as_set t)"
  shows "itemsets_from_transactions (Callable (Generator (map as_set (filter (\<lambda>t. length t > 0) ts)))) s
           = itemsets_from_transactions (Collection ts) s"
proof -
  have "itemsets_from_transactions (Collection ts) s
      = itemsets_from_transactions (Callable (Generator (map remdups (filter (\<lambda>t. length t > 0) ts)))) s"
    by (simp add: itemsets_from_transactions_def sanitize_cases)
  also have "\<dots> = itemsets_from_transactions
      (Callable (Generator (map as_set (filter (\<lambda>t. length t > 0) ts)))) s"
    by (rule generator_order_irrelevant) (use assms in auto)
  finally show ?thesis by simp
qed

section \<open>The first level of the result\<close>

lemma level_loop_keeps_levels:
  assumes "level_loop txs ms n large k use = Some y"
  shows "\<forall>res j. y = Inr res \<longrightarrow> j < k \<longrightarrow> map_of res j = map_of large j"
proof (rule level_loop.raw_induct[where P = "\<lambda>txs ms n large k use y.
    \<forall>res j. y = Inr res \<longrightarrow> j < k \<longrightarrow> map_of res j = map_of large j", OF _ assms],
    goal_cases)
  case (1 loop txs ms n large k use y)
  show ?case
  proof (intro allI impI)
    fix res j assume y: "y = Inr res" and j: "j < k"
    from 1(2) show "map_of res j = map_of large j"
    proof (cases rule: level_loop_body_cases)
      case no_level
      with y show ?thesis by simp
    next
      case empty_level
      with y show ?thesis by simp
    next
      case (join_error prev e)
      with y show ?thesis by simp
    next
      case (keep_error prev possible counts use' e)
      with y show ?thesis by simp
    next
      case (break prev possible counts use')
      with y show ?thesis by simp
    next
      case (continue prev possible counts use' kept)
      from 1(1)[OF continue(7)] y j
      have "map_of res j = map_of (AList.update k (dict_of (sort kept)) large) j" by simp
      with j show ?thesis by (simp add: update_conv')
    qed
  qed
qed

lemma first_level_members:
  fixes txs :: "'a::linorder list list"
  assumes sn: "snd (sanitize t s) = Inr (txs, m)"
    and r: "itemsets_from_transactions t s = Some (Inr (levels, n))"
  shows "(\<exists>lev. map_of levels 1 = Some lev \<and> ([i], c) \<in> set lev) \<longleftrightarrow>
           (c = sum_list (map (\<lambda>t. count_list t i) txs) \<and> 0 < c \<and> m \<le> true_divide c (length txs))"
proof -
  obtain counts n' where ci: "count_items txs [] 0 = (counts, n')"
    by (cases "count_items txs [] 0")
  from first_level(1)[OF ci] have n': "n' = length txs" .
  from count_items_dict_ok[OF dict_ok_Nil, of txs 0] ci have ok: "dict_ok counts" by simp
  have cnt: "count_of counts i = sum_list (map (\<lambda>t. count_list t i) txs)"
    using count_items_count[of txs "[]" 0 i] ci by (simp add: count_of_def)
  from r sn ci obtain large1 where kl: "keep_large counts n' m = Inr large1"
    by (cases "keep_large counts n' m") (auto simp: itemsets_from_transactions_def)
  then have l1: "large1 = filter (\<lambda>(i, c). true_divide c n' \<ge> m) counts"
    by (auto simp: keep_large_def split: if_splits)
  have mem: "(i, c) \<in> set large1 \<longleftrightarrow>
      (c = sum_list (map (\<lambda>t. count_list t i) txs) \<and> 0 < c \<and> m \<le> true_divide c (length txs))"
    unfolding l1 using dict_ok_mem[OF ok, of i c] cnt n' by auto
  show ?thesis
  proof (cases "large1 = []")
    case True
    with r sn ci kl have "levels = []" by (simp add: itemsets_from_transactions_def)
    with mem True show ?thesis by simp
  next
    case False
    let ?lev = "map (\<lambda>(i, c). ([i], c)) (sort large1)"
    from False r sn ci kl
    have lp: "level_loop txs m n' [(1, dict_of ?lev)] 2 (\<lambda>row. True) = Some (Inr levels)"
      by (auto simp: itemsets_from_transactions_def split: option.splits sum.splits)
    from level_loop_keeps_levels[OF lp] have "map_of levels 1 = map_of [(1, dict_of ?lev)] 1"
      by simp
    then have lv: "map_of levels 1 = Some (dict_of ?lev)" by simp
    from ok have "distinct (map fst large1)" unfolding l1 by (auto simp: dict_ok_def distinct_map_filter)
    then have "distinct (map fst (sort large1))" by (simp add: distinct_map)
    then have "distinct (map (\<lambda>i. [i]) (map fst (sort large1)))" by (simp add: distinct_map inj_on_def)
    moreover have "map fst ?lev = map (\<lambda>i. [i]) (map fst (sort large1))"
      by (simp add: case_prod_unfold comp_def)
    ultimately have "distinct (map fst ?lev)" by (simp only:)
    then have "dict_of ?lev = ?lev" by (rule dict_of_distinct)
    with lv have "(\<exists>lev. map_of levels 1 = Some lev \<and> ([i], c) \<in> set lev) \<longleftrightarrow> (i, c) \<in> set large1"
      by auto
    with mem show ?thesis by simp
  qed
qed

lemma occurrences_distinct:
  "\<forall>t \<in> set txs. distinct t \<Longrightarrow>
     sum_list (map (\<lambda>t. count_list t i) txs) = length (filter (\<lambda>t. i \<in> set t) txs)"
  by (induction txs) (auto simp: count_list_distinct)

lemma occurrences_collection:
  "sum_list (map (\<lambda>t. count_list t i) (map remdups (filter (\<lambda>t. t \<noteq> []) ts)))
     = length (filter (\<lambda>t. i \<in> set t) ts)"
proof -
  have "sum_list (map (\<lambda>t. count_list t i) (map remdups (filter (\<lambda>t. t \<noteq> []) ts)))
      = length (filter (\<lambda>t. i \<in> set t) (map remdups (filter (\<lambda>t. t \<noteq> []) ts)))"
    by (rule occurrences_distinct) auto
  also have "\<dots> = length (filter (\<lambda>t. i \<in> set t) ts)"
    by (induction ts) auto
  finally show ?thesis .
qed

text \<open>
  The quotient is rounded before it is compared: with one transaction \<^verbatim>\<open>(1,)\<close>, nine
  transactions \<^verbatim>\<open>(2,)\<close> and \<^verbatim>\<open>min_support\<close> the \<^verbatim>\<open>float\<close> \<^verbatim>\<open>0.1\<close>, whose value is
  above one tenth, item 1 is kept, \<^verbatim>\<open>1 / 10\<close> being that same \<^verbatim>\<open>float\<close>.
\<close>

lemma rounded_quotient_example:
  "true_divide 1 10 = 3602879701896397 / 36028797018963968
   \<and> (1 :: rat) / 10 < 3602879701896397 / 36028797018963968
   \<and> itemsets_from_transactions
       (Collection [[1], [2], [2], [2], [2], [2], [2], [2], [2], [2 :: int]])
       (Number (3602879701896397 / 36028797018963968))
     = Some (Inr ([(1, [([1], 1), ([2], 9)])], 10))"
  by code_simp

lemma complex_support_example:
  "itemsets_from_transactions (Callable (Generator [[1 :: int]])) (Incomparable TypeError)
     = Some (Inl TypeError)
   \<and> itemsets_from_transactions (Collection [[1 :: int], [2]]) (Incomparable TypeError)
     = Some (Inl TypeError)"
  by (simp add: itemsets_from_transactions_def sanitize_cases check_support_def)

section \<open>The documented examples\<close>

text \<open>
  C1: for the transactions \<^verbatim>\<open>[(1,3,4),(2,3,5),(1,2,3,5),(2,5)]\<close> and
  \<^verbatim>\<open>min_support = 0.4\<close>, \<^verbatim>\<open>itemsets_from_transactions\<close> returns level 1 =
  \<^verbatim>\<open>{(1,):2,(2,):3,(3,):3,(5,):3}\<close>, level 2 =
  \<^verbatim>\<open>{(1,3):2,(2,3):2,(2,5):3,(3,5):2}\<close>, level 3 = \<^verbatim>\<open>{(2,3,5):2}\<close>, no level
  4, and the transaction count 4. This holds for the threshold two fifths taken exactly, and
  for the \<^verbatim>\<open>float\<close> \<^verbatim>\<open>0.4\<close>, which is the value of \<^verbatim>\<open>2/5\<close> in the docstring.
\<close>

theorem itemsets_from_transactions_example:
  "itemsets_from_transactions
     (Collection [[1, 3, 4], [2, 3, 5], [1, 2, 3, 5], [2, 5 :: int]]) (Number (2 / 5))
   = Some (Inr ([(1, [([1], 2), ([2], 3), ([3], 3), ([5], 3)]),
                 (2, [([1, 3], 2), ([2, 3], 2), ([2, 5], 3), ([3, 5], 2)]),
                 (3, [([2, 3, 5], 2)])],
                4))
   \<and> true_divide 2 5 = 3602879701896397 / 9007199254740992
   \<and> itemsets_from_transactions
       (Collection [[1, 3, 4], [2, 3, 5], [1, 2, 3, 5], [2, 5 :: int]])
       (Number (3602879701896397 / 9007199254740992))
     = Some (Inr ([(1, [([1], 2), ([2], 3), ([3], 3), ([5], 3)]),
                   (2, [([1, 3], 2), ([2, 3], 2), ([2, 5], 3), ([3, 5], 2)]),
                   (3, [([2, 3, 5], 2)])],
                  4))"
  by code_simp

lemma strict_sorted_snoc2:
  assumes "sorted (p @ [a])" "distinct (p @ [a])" "a < (b :: 'a::linorder)"
  shows "sorted (p @ [a, b]) \<and> distinct (p @ [a, b])"
proof -
  from assms(1,2) have "sorted_wrt (<) (p @ [a])" by (simp only: strict_sorted_iff)
  then have "sorted_wrt (<) (p @ [a, b])"
    using assms(3) by (auto simp: sorted_wrt_append)
  then show ?thesis by (simp only: strict_sorted_iff)
qed

text \<open>
  C9: \<^verbatim>\<open>join_step\<close> applied to
  \<^verbatim>\<open>[(1,2,3),(1,2,4),(1,3,4),(1,3,5),(2,3,4)]\<close> yields exactly
  \<^verbatim>\<open>[(1,2,3,4),(1,3,4,5)]\<close>; and for every sorted list without duplicates of strictly
  sorted itemsets of length \<open>k\<close> (\<open>k \<ge> 1\<close>), \<^verbatim>\<open>join_step\<close> returns, and each candidate
  it emits is a strictly sorted tuple of length \<open>k + 1\<close> made of a prefix of length \<open>k - 1\<close>
  shared by two itemsets of the input and of their two last items, in ascending order.
\<close>

theorem join_step_candidates:
  assumes "sorted L" and "distinct L"
    and "\<forall>x \<in> set L. length x = k \<and> sorted x \<and> distinct x" and "0 < k"
  shows "join_step [[1, 2, 3], [1, 2, 4], [1, 3, 4], [1, 3, 5], [2, 3, 4 :: int]]
           = Inr [[1, 2, 3, 4], [1, 3, 4, 5]]
     \<and> (\<exists>cs. join_step L = Inr cs \<and>
           (\<forall>c \<in> set cs. length c = k + 1 \<and> sorted c \<and> distinct c \<and>
              (\<exists>p a b. c = p @ [a, b] \<and> length p = k - 1 \<and> a < b \<and>
                 p @ [a] \<in> set L \<and> p @ [b] \<in> set L)))"
proof
  show "join_step [[1, 2, 3], [1, 2, 4], [1, 3, 4], [1, 3, 5], [2, 3, 4 :: int]]
           = Inr [[1, 2, 3, 4], [1, 3, 4, 5]]"
    by code_simp
next
  from assms(3,4) have "\<forall>y \<in> set L. y \<noteq> []" by auto
  then obtain cs where cs: "join_step L = Inr cs"
    using join_step_total by blast
  from assms(1,2) have srt: "sorted_wrt (<) L" by (simp only: strict_sorted_iff)
  have "length c = k + 1 \<and> sorted c \<and> distinct c \<and>
          (\<exists>p a b. c = p @ [a, b] \<and> length p = k - 1 \<and> a < b \<and>
             p @ [a] \<in> set L \<and> p @ [b] \<in> set L)" if "c \<in> set cs" for c
  proof -
    from join_step_mem_less[OF cs that srt] obtain p a b where
      c: "c = p @ [a, b]" and ab: "a < b" and pa: "p @ [a] \<in> set L" and pb: "p @ [b] \<in> set L"
      by blast
    from pa assms(3) have l: "length (p @ [a]) = k" and s: "sorted (p @ [a])" "distinct (p @ [a])"
      by blast+
    from l have lp: "length p = k - 1" by simp
    from l c have lc: "length c = k + 1" by simp
    from strict_sorted_snoc2[OF s ab] c have "sorted c \<and> distinct c" by simp
    with lc lp c ab pa pb show ?thesis by blast
  qed
  with cs show "\<exists>cs. join_step L = Inr cs \<and>
           (\<forall>c \<in> set cs. length c = k + 1 \<and> sorted c \<and> distinct c \<and>
              (\<exists>p a b. c = p @ [a, b] \<and> length p = k - 1 \<and> a < b \<and>
                 p @ [a] \<in> set L \<and> p @ [b] \<in> set L))"
    by blast
qed

theorem join_step_candidates_witness:
  "join_step [[1, 2], [1, 3], [2, 3 :: int]] = Inr [[1, 2, 3]]
   \<and> (\<exists>p a b. [1, 2, 3 :: int] = p @ [a, b] \<and> length p = 2 - 1 \<and> a < b \<and>
          p @ [a] \<in> set [[1, 2], [1, 3], [2, 3]] \<and> p @ [b] \<in> set [[1, 2], [1, 3], [2, 3]])"
proof -
  have e: "join_step [[1, 2], [1, 3], [2, 3 :: int]] = Inr [[1, 2, 3]]" by code_simp
  have h1: "sorted [[1, 2], [1, 3], [2, 3 :: int]]" by simp
  have h2: "distinct [[1, 2], [1, 3], [2, 3 :: int]]" by simp
  have h3: "\<forall>x \<in> set [[1, 2], [1, 3], [2, 3 :: int]]. length x = 2 \<and> sorted x \<and> distinct x"
    by simp
  have h4: "0 < (2 :: nat)" by simp
  from join_step_candidates[OF h1 h2 h3 h4] e
  have "\<forall>c \<in> set [[1, 2, 3 :: int]]. length c = 2 + 1 \<and> sorted c \<and> distinct c \<and>
              (\<exists>p a b. c = p @ [a, b] \<and> length p = 2 - 1 \<and> a < b \<and>
                 p @ [a] \<in> set [[1, 2], [1, 3], [2, 3]] \<and> p @ [b] \<in> set [[1, 2], [1, 3], [2, 3]])"
    by auto
  with e show ?thesis by simp
qed

text \<open>
  C3: for every sorted list \<open>L\<close> without duplicates of strictly sorted itemsets of length \<open>k\<close>
  (\<open>k \<ge> 1\<close>), every candidate emitted by \<^verbatim>\<open>join_step(L)\<close> gives a member of \<open>L\<close> when its
  last item (position \<open>k\<close>) or its second-to-last item (position \<open>k - 1\<close>) is removed; so
  \<^verbatim>\<open>prune_step(L, join_step(L))\<close>, which tests the positions \<open>0\<close> to \<open>k - 2\<close> only, keeps
  exactly the candidates all of whose \<open>k + 1\<close> one-item-removed subsets are members of \<open>L\<close>.
\<close>

theorem prune_step_skips_last_two:
  assumes "sorted L" and "distinct L"
    and "\<forall>x \<in> set L. length x = k \<and> sorted x \<and> distinct x" and "0 < k"
  shows "\<exists>cs. join_step L = Inr cs \<and>
           (\<forall>c \<in> set cs. length c = k + 1 \<and> removed c k \<in> set L \<and> removed c (k - 1) \<in> set L) \<and>
           prune_step L cs = filter (\<lambda>c. \<forall>i < k + 1. removed c i \<in> set L) cs"
proof -
  from assms(3,4) have "\<forall>y \<in> set L. y \<noteq> []" by auto
  then obtain cs where cs: "join_step L = Inr cs"
    using join_step_total by blast
  have one: "length c = k + 1 \<and> removed c k \<in> set L \<and> removed c (k - 1) \<in> set L \<and>
      ((\<forall>i \<in> set [0..<length c - 2]. removed c i \<in> set L) \<longleftrightarrow>
       (\<forall>i < k + 1. removed c i \<in> set L))" if "c \<in> set cs" for c
  proof -
    from join_step_mem[OF cs that] obtain p a b where
      c: "c = p @ [a, b]" and pa: "p @ [a] \<in> set L" and pb: "p @ [b] \<in> set L"
      by blast
    from pa assms(3) have "length (p @ [a]) = k" by blast
    then have lp: "k = Suc (length p)" by simp
    then have lc: "length c = k + 1" using c by simp
    have r1: "removed c k = p @ [a]" unfolding c lp by (rule removed_last)
    have r2: "removed c (k - 1) = p @ [b]" unfolding c lp by (simp add: removed_second_last)
    have "(\<forall>i \<in> set [0..<length c - 2]. removed c i \<in> set L) \<longleftrightarrow>
       (\<forall>i < length c. removed c i \<in> set L)"
      unfolding c by (rule prune_check_enough[OF pa pb])
    then have "(\<forall>i \<in> set [0..<length c - 2]. removed c i \<in> set L) \<longleftrightarrow>
       (\<forall>i < k + 1. removed c i \<in> set L)"
      by (simp only: lc)
    with lc r1 r2 pa pb show ?thesis by simp
  qed
  have "prune_step L cs = filter (\<lambda>c. \<forall>i < k + 1. removed c i \<in> set L) cs"
    unfolding prune_step_def by (rule filter_cong[OF refl]) (use one in blast)
  with cs one show ?thesis by blast
qed

theorem prune_step_skips_last_two_witness:
  "join_step [[1, 2], [1, 3], [1, 4], [2, 3 :: int]] = Inr [[1, 2, 3], [1, 2, 4], [1, 3, 4]]
   \<and> removed [1, 2, 4 :: int] 2 \<in> set [[1, 2], [1, 3], [1, 4], [2, 3]]
   \<and> removed [1, 2, 4 :: int] (2 - 1) \<in> set [[1, 2], [1, 3], [1, 4], [2, 3]]
   \<and> prune_step [[1, 2], [1, 3], [1, 4], [2, 3 :: int]] [[1, 2, 3], [1, 2, 4], [1, 3, 4]]
       = filter (\<lambda>c. \<forall>i < 2 + 1. removed c i \<in> set [[1, 2], [1, 3], [1, 4], [2, 3]])
           [[1, 2, 3], [1, 2, 4], [1, 3, 4]]
   \<and> prune_step [[1, 2], [1, 3], [1, 4], [2, 3 :: int]] [[1, 2, 3], [1, 2, 4], [1, 3, 4]]
       = [[1, 2, 3]]"
proof -
  have e: "join_step [[1, 2], [1, 3], [1, 4], [2, 3 :: int]] = Inr [[1, 2, 3], [1, 2, 4], [1, 3, 4]]"
    by code_simp
  have p: "prune_step [[1, 2], [1, 3], [1, 4], [2, 3 :: int]] [[1, 2, 3], [1, 2, 4], [1, 3, 4]]
       = [[1, 2, 3]]"
    by code_simp
  have h1: "sorted [[1, 2], [1, 3], [1, 4], [2, 3 :: int]]" by simp
  have h2: "distinct [[1, 2], [1, 3], [1, 4], [2, 3 :: int]]" by simp
  have h3: "\<forall>x \<in> set [[1, 2], [1, 3], [1, 4], [2, 3 :: int]]. length x = 2 \<and> sorted x \<and> distinct x"
    by simp
  have h4: "0 < (2 :: nat)" by simp
  from prune_step_skips_last_two[OF h1 h2 h3 h4] e p show ?thesis
    by auto
qed

section \<open>Properties of the mining driver\<close>

text \<open>
  C2, downward closure: for every accepted input, \<^verbatim>\<open>itemsets_from_transactions\<close> returns a
  result, and in it every itemset \<open>S\<close> of a level \<open>k > 1\<close> with support count \<open>c\<close> has length
  \<open>k\<close>, and every tuple obtained by removing one item of \<open>S\<close> is a key of level \<open>k - 1\<close> with
  a support count of at least \<open>c\<close>.
\<close>

theorem downward_closure:
  assumes "accepted_transactions t" and "valid_support s"
  shows "\<exists>levels n. itemsets_from_transactions t s = Some (Inr (levels, n)) \<and>
           (\<forall>k lev S c. map_of levels k = Some lev \<and> 1 < k \<and> (S, c) \<in> set lev \<longrightarrow>
              length S = k \<and>
              (\<forall>i < length S. \<exists>prev c'. map_of levels (k - 1) = Some prev \<and>
                  (removed S i, c') \<in> set prev \<and> c \<le> c'))"
proof -
  from sanitize_accepted[OF assms] obtain txs m where "snd (sanitize t s) = Inr (txs, m)"
    by blast
  from mining_core[OF this] obtain res k' where
    r: "itemsets_from_transactions t s = Some (Inr (res, length txs))" and ok: "levels_ok txs res k'"
    by blast
  have "length S = k \<and>
      (\<forall>i < length S. \<exists>prev c'. map_of res (k - 1) = Some prev \<and>
          (removed S i, c') \<in> set prev \<and> c \<le> c')"
    if "map_of res k = Some lev \<and> 1 < k \<and> (S, c) \<in> set lev" for k lev S c
    using levels_ok_downward[OF ok, of k lev S c] that by blast
  with r show ?thesis by blast
qed

theorem downward_closure_witness:
  "\<exists>prev c'. map_of [(1 :: nat, [([1 :: int], 2 :: nat), ([2], 3), ([3], 3), ([5], 3)]),
                      (2, [([1, 3], 2), ([2, 3], 2), ([2, 5], 3), ([3, 5], 2)]),
                      (3, [([2, 3, 5], 2)])] (3 - 1) = Some prev \<and>
      (removed [2, 3, 5] 0, c') \<in> set prev \<and> (2 :: nat) \<le> c'"
proof -
  have a: "accepted_transactions (Collection [[1, 3, 4], [2, 3, 5], [1, 2, 3, 5], [2, 5 :: int]])"
    by (simp add: accepted_transactions_def)
  have v: "valid_support (Number (2 / 5))" by (simp add: valid_support_def)
  from downward_closure[OF a v] obtain levels n where
    r: "itemsets_from_transactions
          (Collection [[1, 3, 4], [2, 3, 5], [1, 2, 3, 5], [2, 5 :: int]]) (Number (2 / 5))
        = Some (Inr (levels, n))"
    and dc: "\<forall>k lev S c. map_of levels k = Some lev \<and> 1 < k \<and> (S, c) \<in> set lev \<longrightarrow>
              length S = k \<and>
              (\<forall>i < length S. \<exists>prev c'. map_of levels (k - 1) = Some prev \<and>
                  (removed S i, c') \<in> set prev \<and> c \<le> c')"
    by blast
  from r paper_example have lv:
    "levels = [(1, [([1], 2), ([2], 3), ([3], 3), ([5], 3)]),
               (2, [([1, 3], 2), ([2, 3], 2), ([2, 5], 3), ([3, 5], 2)]),
               (3, [([2, 3, 5], 2)])]"
    by simp
  have "map_of levels 3 = Some [([2, 3, 5], 2)] \<and> (1 :: nat) < 3 \<and>
      ([2, 3, 5], 2) \<in> set [([2, 3, 5 :: int], 2 :: nat)]"
    by (simp add: lv)
  from dc[rule_format, OF this]
  have "\<exists>prev c'. map_of levels (3 - 1) = Some prev \<and>
      (removed [2, 3, 5] 0, c') \<in> set prev \<and> (2 :: nat) \<le> c'"
    by simp
  then show ?thesis unfolding lv .
qed

text \<open>
  C5, termination: \<^verbatim>\<open>itemsets_from_transactions\<close> returns on every input (the result being
  a function of the input), and for an accepted transaction source and a \<^verbatim>\<open>min_support\<close>
  in \<open>[0, 1]\<close> it returns levels, numbered \<open>1, 2, \<dots>\<close>, of which there are at most as many as
  there are distinct items: level \<open>k\<close> holds tuples of \<open>k\<close> different items.
\<close>

theorem itemsets_from_transactions_terminates:
  "(\<exists>r. itemsets_from_transactions t s = Some r) \<and>
   (accepted_transactions t \<and> valid_support s \<longrightarrow>
      (\<exists>levels n. itemsets_from_transactions t s = Some (Inr (levels, n)) \<and>
         map fst levels = [1..<Suc (length levels)] \<and>
         length levels \<le> card (\<Union> (set ` set (source_transactions t)))))"
proof
  show "\<exists>r. itemsets_from_transactions t s = Some r"
  proof (cases "snd (sanitize t s)")
    case (Inl e)
    then show ?thesis by (simp add: rejected_result)
  next
    case (Inr p)
    obtain txs m where "p = (txs, m)" by (cases p)
    with Inr mining_core[of t s txs m] show ?thesis by auto
  qed
next
  show "accepted_transactions t \<and> valid_support s \<longrightarrow>
      (\<exists>levels n. itemsets_from_transactions t s = Some (Inr (levels, n)) \<and>
         map fst levels = [1..<Suc (length levels)] \<and>
         length levels \<le> card (\<Union> (set ` set (source_transactions t))))"
  proof
    assume h: "accepted_transactions t \<and> valid_support s"
    then obtain txs m where sn: "snd (sanitize t s) = Inr (txs, m)"
      and items: "\<Union> (set ` set txs) = \<Union> (set ` set (source_transactions t))"
      using sanitize_accepted[of t s] by blast
    from mining_core[OF sn] obtain res k where
      r: "itemsets_from_transactions t s = Some (Inr (res, length txs))"
      and ok: "levels_ok txs res k"
      by blast
    from ok have keys: "map fst res = [1..<k]" by (simp add: levels_ok_def)
    then have "length res = k - 1" by (metis length_map length_upt)
    moreover from keys have "res \<noteq> [] \<Longrightarrow> 1 < k" by (cases "1 < k") auto
    ultimately have "map fst res = [1..<Suc (length res)]"
      using keys by (cases "res = []") auto
    with r levels_ok_length[OF ok] items show
      "\<exists>levels n. itemsets_from_transactions t s = Some (Inr (levels, n)) \<and>
         map fst levels = [1..<Suc (length levels)] \<and>
         length levels \<le> card (\<Union> (set ` set (source_transactions t)))"
      by auto
  qed
qed

theorem itemsets_from_transactions_terminates_witness:
  "(\<exists>levels n. itemsets_from_transactions (Callable (Generator [[1, 2 :: int]])) (Number 0)
       = Some (Inr (levels, n)) \<and>
      map fst levels = [1..<Suc (length levels)] \<and> length levels \<le> 2)"
proof -
  have a: "accepted_transactions (Callable (Generator [[1, 2 :: int]]))"
    by (simp add: accepted_transactions_def)
  have v: "valid_support (Number 0)" by (simp add: valid_support_def)
  have c: "card (\<Union> (set ` set (source_transactions (Callable (Generator [[1, 2 :: int]]))))) = 2"
    by (simp add: source_transactions_def)
  from itemsets_from_transactions_terminates[of "Callable (Generator [[1, 2 :: int]])" "Number 0"]
    a v c show ?thesis by simp
qed

lemma every_row_same_result:
  "itemsets_from_transactions_every_row t s = itemsets_from_transactions t s"
proof (cases "snd (sanitize t s)")
  case (Inl e)
  then show ?thesis by (simp add: rejected_result rejected_result_every_row)
next
  case (Inr p)
  obtain txs m where "p = (txs, m)" by (cases p)
  with Inr mining_core[of t s txs m] show ?thesis by auto
qed

text \<open>
  C4: a row that the mask marks inactive is never consulted again. Within the pass of a level
  the mask only goes from active to inactive, and the mask a level leaves is the one the next
  level starts from; from any level on, the loop gives the same result whatever the rows
  marked inactive hold, so they are read at no later level. And counting every row at every
  level instead gives the same levels, the same counts and the same transaction count, on
  every input.
\<close>

theorem row_skipping_keeps_the_result:
  "itemsets_from_transactions t s = itemsets_from_transactions_every_row t s
   \<and> (snd (scan_rows C (enumerate_rows txs) counts use) row \<longrightarrow> use row)
   \<and> (length txs' = length txs \<and> (\<forall>r < length txs. use r \<longrightarrow> txs' ! r = txs ! r) \<longrightarrow>
        level_loop txs' ms n large k use = level_loop txs ms n large k use)"
proof (intro conjI impI)
  show "itemsets_from_transactions t s = itemsets_from_transactions_every_row t s"
    by (simp add: every_row_same_result)
next
  assume "snd (scan_rows C (enumerate_rows txs) counts use) row"
  then show "use row" by (rule scan_rows_mask_mono)
next
  assume "length txs' = length txs \<and> (\<forall>r < length txs. use r \<longrightarrow> txs' ! r = txs ! r)"
  then show "level_loop txs' ms n large k use = level_loop txs ms n large k use"
    by (intro level_loop_ignores_inactive) auto
qed

theorem row_skipping_keeps_the_result_witness:
  "itemsets_from_transactions_every_row
     (Collection [[1, 3, 4], [2, 3, 5], [1, 2, 3, 5], [2, 5 :: int]]) (Number (2 / 5))
   = Some (Inr ([(1, [([1], 2), ([2], 3), ([3], 3), ([5], 3)]),
                 (2, [([1, 3], 2), ([2, 3], 2), ([2, 5], 3), ([3, 5], 2)]),
                 (3, [([2, 3, 5], 2)])],
                4))
   \<and> level_loop [[1, 2], [7 :: int], [1, 2]] 0 3 [(1, [([1], 2), ([2], 2)])] 2 (\<lambda>r. r \<noteq> 1)
     = level_loop [[1, 2], [3], [1, 2]] 0 3 [(1, [([1], 2), ([2], 2)])] 2 (\<lambda>r. r \<noteq> 1)"
proof -
  have h: "length [[1, 2], [7 :: int], [1, 2]] = length [[1, 2], [3 :: int], [1, 2]] \<and>
      (\<forall>r < length [[1, 2], [3 :: int], [1, 2]].
          r \<noteq> 1 \<longrightarrow> [[1, 2], [7 :: int], [1, 2]] ! r = [[1, 2], [3], [1, 2]] ! r)"
    by (simp add: nth_Cons' less_Suc_eq)
  from row_skipping_keeps_the_result[where
      t = "Collection [[1, 3, 4], [2, 3, 5], [1, 2, 3, 5], [2, 5 :: int]]"
      and s = "Number (2 / 5)" and C = "[]" and counts = "[]" and use = "\<lambda>r. r \<noteq> 1"
      and row = 0 and txs' = "[[1, 2], [7 :: int], [1, 2]]"
      and txs = "[[1, 2], [3 :: int], [1, 2]]" and ms = 0 and n = 3
      and large = "[(1, [([1], 2), ([2], 2)])]" and k = 2]
    h paper_example
  show ?thesis by simp
qed

text \<open>
  C6: duplicate items within a transaction. A transaction yielded by a callable's generator is
  counted as it is, so at level 1 an item is counted once for each of its occurrences: in
  \<^verbatim>\<open>(1,1),(2,),(2,),(2,)\<close> with \<^verbatim>\<open>min_support = 0.5\<close> item 1 gets the count 2 and is
  kept although one transaction of four contains it. The same records given as a collection
  are turned into sets first, and item 1 is dropped with the count 1.
\<close>

theorem generator_duplicates_inflate_counts:
  "itemsets_from_transactions (Callable (Generator [[1, 1], [2], [2], [2 :: int]])) (Number (1 / 2))
     = Some (Inr ([(1, [([1], 2), ([2], 3)])], 4))
   \<and> itemsets_from_transactions (Collection [[1, 1], [2], [2], [2 :: int]]) (Number (1 / 2))
     = Some (Inr ([(1, [([2], 3)])], 4))"
  by code_simp

lemma collection_duplicates_ignored:
  "itemsets_from_transactions (Collection (map remdups ts)) s
     = itemsets_from_transactions (Collection ts) s"
proof -
  have "map remdups (filter (\<lambda>t. t \<noteq> []) (map remdups ts))
      = map remdups (filter (\<lambda>t. t \<noteq> []) ts)"
    by (induction ts) auto
  then have "snd (sanitize (Collection (map remdups ts)) s) = snd (sanitize (Collection ts) s)"
    by (simp only: sanitize_cases transactions_arg.case snd_conv)
  then show ?thesis by (simp add: itemsets_from_transactions_def)
qed

text \<open>
  C7, as the code has it: when \<^verbatim>\<open>transactions\<close> is neither an iterable nor a callable
  returning an iterable, or \<^verbatim>\<open>min_support\<close> is not a number in \<open>[0, 1]\<close>, the call raises
  and returns no result, and nothing has been counted by then. No record has been read either,
  unless \<^verbatim>\<open>transactions\<close> is a collection: a collection has been read once, whole, to
  build the sets, before \<^verbatim>\<open>min_support\<close> is looked at.
\<close>

theorem invalid_input_raises:
  assumes "\<not> well_shaped t \<or> \<not> valid_support s"
  shows "(\<exists>e. itemsets_from_transactions t s = Some (Inl e))
     \<and> records_read t s = (case t of Collection ts \<Rightarrow> length ts | _ \<Rightarrow> 0)"
proof
  have "\<not> accepted_transactions t \<or> \<not> valid_support s"
    using assms by (cases t) (auto simp: well_shaped_def accepted_transactions_def
        split: returned.splits)
  from sanitize_rejected[OF this] obtain e where "snd (sanitize t s) = Inl e" by blast
  from rejected_result[OF this] show "\<exists>e. itemsets_from_transactions t s = Some (Inl e)"
    by blast
next
  show "records_read t s = (case t of Collection ts \<Rightarrow> length ts | _ \<Rightarrow> 0)"
    by (cases t) (auto simp: records_read_def sanitize_cases split: returned.splits)
qed

theorem invalid_input_raises_witness:
  "(\<exists>e. itemsets_from_transactions (Neither :: int transactions_arg) (Number (1 / 2)) = Some (Inl e))
   \<and> records_read (Neither :: int transactions_arg) (Number (1 / 2)) = 0
   \<and> (\<exists>e. itemsets_from_transactions (Collection [[1 :: int], [2]]) (Incomparable TypeError)
             = Some (Inl e))
   \<and> records_read (Collection [[1 :: int], [2]]) (Incomparable TypeError) = 2"
proof -
  have a: "\<not> well_shaped (Neither :: int transactions_arg) \<or> \<not> valid_support (Number (1 / 2))"
    by (simp add: well_shaped_def)
  have b: "\<not> well_shaped (Collection [[1 :: int], [2]]) \<or> \<not> valid_support (Incomparable TypeError)"
    by (simp add: valid_support_def)
  from invalid_input_raises[OF a] invalid_input_raises[OF b] show ?thesis by simp
qed

theorem invalid_support_read_first_counterexample:
  "\<not> valid_support (Number 2)
   \<and> itemsets_from_transactions (Collection [[1 :: int], [2]]) (Number 2) = Some (Inl ValueError)
   \<and> records_read (Collection [[1 :: int], [2]]) (Number 2) = 2"
  by (simp add: valid_support_def itemsets_from_transactions_def records_read_def sanitize_cases
      check_support_def)

text \<open>
  C8, as the code has it: the branch on a callable (lines 197 to 202) accepts it when its
  invocation returns a generator, and raises its \<^verbatim>\<open>TypeError\<close> exactly when the value
  returned is not a generator, be it not iterable at all or an iterable of another kind, such
  as a list; the call then raises that \<^verbatim>\<open>TypeError\<close> whatever \<^verbatim>\<open>min_support\<close> is. For
  a callable returning a generator, an exception can only come from the check of
  \<^verbatim>\<open>min_support\<close>, and with a \<^verbatim>\<open>min_support\<close> in \<open>[0, 1]\<close> the call returns a result.
\<close>

theorem callable_accepted_iff_generator:
  "((\<exists>e. snd (normalize_transactions (Callable r)) = Inl e) = (\<forall>g. r \<noteq> Generator g))
   \<and> ((\<forall>g. r \<noteq> Generator g) \<longrightarrow>
        snd (normalize_transactions (Callable r)) = Inl TypeError
        \<and> itemsets_from_transactions (Callable r) s = Some (Inl TypeError))
   \<and> (\<forall>e. itemsets_from_transactions (Callable (Generator g)) s = Some (Inl e) \<longrightarrow>
          check_support s = Inl e)
   \<and> (valid_support s \<longrightarrow>
        (\<exists>levels n. itemsets_from_transactions (Callable (Generator g)) s
                       = Some (Inr (levels, n))))"
proof (intro conjI)
  show "(\<exists>e. snd (normalize_transactions (Callable r)) = Inl e) = (\<forall>g. r \<noteq> Generator g)"
    by (cases r) (simp_all add: normalize_transactions_def)
next
  show "(\<forall>g. r \<noteq> Generator g) \<longrightarrow>
        snd (normalize_transactions (Callable r)) = Inl TypeError
        \<and> itemsets_from_transactions (Callable r) s = Some (Inl TypeError)"
    by (cases r)
       (simp_all add: normalize_transactions_def itemsets_from_transactions_def sanitize_cases)
next
  show "\<forall>e. itemsets_from_transactions (Callable (Generator g)) s = Some (Inl e) \<longrightarrow>
          check_support s = Inl e"
  proof (intro allI impI)
    fix e assume r: "itemsets_from_transactions (Callable (Generator g)) s = Some (Inl e)"
    show "check_support s = Inl e"
    proof (cases "check_support s")
      case (Inl e')
      then have "snd (sanitize (Callable (Generator g)) s) = Inl e'"
        by (simp add: sanitize_cases)
      from rejected_result[OF this] r Inl show ?thesis by simp
    next
      case (Inr m)
      then have "snd (sanitize (Callable (Generator g)) s) = Inr (g, m)"
        by (simp add: sanitize_cases)
      from mining_core[OF this] r show ?thesis by auto
    qed
  qed
next
  show "valid_support s \<longrightarrow>
        (\<exists>levels n. itemsets_from_transactions (Callable (Generator g)) s
                       = Some (Inr (levels, n)))"
  proof
    assume v: "valid_support s"
    from sanitize_Generator[OF v, of g] obtain m where
      "snd (sanitize (Callable (Generator g)) s) = Inr (g, m)" by blast
    from mining_core[OF this] show "\<exists>levels n.
        itemsets_from_transactions (Callable (Generator g)) s = Some (Inr (levels, n))"
      by blast
  qed
qed

theorem callable_accepted_iff_generator_witness:
  "itemsets_from_transactions (Callable (Iterable [[1 :: int]])) (Number 1) = Some (Inl TypeError)
   \<and> (\<exists>levels n. itemsets_from_transactions (Callable (Generator [[1 :: int]])) (Number 1)
                    = Some (Inr (levels, n)))"
proof -
  have v: "valid_support (Number 1)" by (simp add: valid_support_def)
  from callable_accepted_iff_generator[of "Iterable [[1 :: int]]" "Number 1" "[[1 :: int]]"] v
  show ?thesis by simp
qed

theorem callable_returning_list_counterexample:
  "well_shaped (Callable (Iterable [[1 :: int]]))
   \<and> itemsets_from_transactions (Callable (Iterable [[1 :: int]])) (Number 1)
       = Some (Inl TypeError)"
  by (simp add: well_shaped_def itemsets_from_transactions_def sanitize_cases)

text \<open>
  C10: when \<^verbatim>\<open>transactions\<close> is a collection and \<^verbatim>\<open>min_support\<close> is in \<open>[0, 1]\<close>, the
  empty transactions are dropped before anything is counted. The call returns what it returns
  without them; the transaction count returned is the number \<open>N\<close> of non-empty records; and
  \<open>N\<close> is the denominator of the support: level 1 holds exactly the items whose number \<open>c\<close> of
  records is positive with \<^verbatim>\<open>c / N >= min_support\<close>, and every count stored at any level
  passes that test. A collection of empty transactions only gives the empty mapping and the
  count 0, and no error.
\<close>

theorem empty_transactions_discarded:
  assumes "valid_support s"
  shows "\<exists>levels m. s = Number m
     \<and> itemsets_from_transactions (Collection ts) s
         = Some (Inr (levels, length (filter (\<lambda>t. t \<noteq> []) ts)))
     \<and> (\<forall>i c. (\<exists>lev. map_of levels 1 = Some lev \<and> ([i], c) \<in> set lev) =
           (c = length (filter (\<lambda>t. i \<in> set t) ts) \<and> 0 < c \<and>
            m \<le> true_divide c (length (filter (\<lambda>t. t \<noteq> []) ts))))
     \<and> above_threshold m (length (filter (\<lambda>t. t \<noteq> []) ts)) levels
     \<and> itemsets_from_transactions (Collection (filter (\<lambda>t. t \<noteq> []) ts)) s
         = itemsets_from_transactions (Collection ts) s
     \<and> ((\<forall>t \<in> set ts. t = []) \<longrightarrow>
          itemsets_from_transactions (Collection ts) s = Some (Inr ([], 0)))"
proof -
  let ?txs = "map remdups (filter (\<lambda>t. t \<noteq> []) ts)"
  from sanitize_Collection[OF assms, of ts] obtain m where s: "s = Number m"
    and sn: "snd (sanitize (Collection ts) s) = Inr (?txs, m)"
    by auto
  from mining_core[OF sn] obtain levels where
    r: "itemsets_from_transactions (Collection ts) s = Some (Inr (levels, length ?txs))"
    by blast
  have len: "length ?txs = length (filter (\<lambda>t. t \<noteq> []) ts)" by simp
  from result_threshold[OF r sn] have ab: "above_threshold m (length ?txs) levels" .
  have lv1: "(\<exists>lev. map_of levels 1 = Some lev \<and> ([i], c) \<in> set lev) =
           (c = length (filter (\<lambda>t. i \<in> set t) ts) \<and> 0 < c \<and> m \<le> true_divide c (length ?txs))"
    for i c
    using first_level_members[OF sn r, of i c] by (simp only: occurrences_collection)
  have "snd (sanitize (Collection (filter (\<lambda>t. t \<noteq> []) ts)) s) = snd (sanitize (Collection ts) s)"
    by (simp add: sanitize_cases cong: sum.case_cong)
  then have eq: "itemsets_from_transactions (Collection (filter (\<lambda>t. t \<noteq> []) ts)) s
         = itemsets_from_transactions (Collection ts) s"
    by (simp add: itemsets_from_transactions_def)
  have emp: "itemsets_from_transactions (Collection ts) s = Some (Inr ([], 0))"
    if "\<forall>t \<in> set ts. t = []"
  proof -
    from that have "?txs = []" by (simp add: filter_empty_conv)
    with sn show ?thesis by (simp add: itemsets_from_transactions_def keep_large_def)
  qed
  from s r ab eq emp lv1 show ?thesis unfolding len by blast
qed

theorem empty_transactions_discarded_witness:
  "itemsets_from_transactions (Collection [[], [1 :: int], []]) (Number 1)
      = Some (Inr ([(1, [([1], 1)])], 1))
   \<and> itemsets_from_transactions (Collection [[1 :: int]]) (Number 1)
      = itemsets_from_transactions (Collection [[], [1 :: int], []]) (Number 1)"
proof -
  have v: "valid_support (Number 1)" by (simp add: valid_support_def)
  have e: "itemsets_from_transactions (Collection [[], [1 :: int], []]) (Number 1)
      = Some (Inr ([(1, [([1], 1)])], 1))"
    by code_simp
  from empty_transactions_discarded[OF v, of "[[], [1 :: int], []]"] e show ?thesis by simp
qed

end
